theory Spec2Isabelle
  imports Main "HOL-Library.Signed_Division" "HOL-Library.Multiset"
begin

section \<open>Go values\<close>

text \<open>
  A Go string is a sequence of bytes, here a \<open>string\<close>; the bytes of a network
  buffer are natural numbers. Go's \<open>int\<close> is 64 bits wide on the platform the
  Dockerfile builds for: \<open>wrap_int\<close> wraps an arithmetic result, and \<open>%\<close> truncates
  towards zero, which is \<open>smod\<close>. The length of a slice always fits an \<open>int\<close>
  (\<open>go_slice\<close>). A run-time panic (an index out of range, a channel of negative
  size) is the value \<open>Panic\<close> of \<open>go_result\<close>.
\<close>

definition max_int :: int where
  "max_int = 2 ^ 63 - 1"

definition wrap_int :: "int \<Rightarrow> int" where
  "wrap_int x = (x + 2 ^ 63) mod 2 ^ 64 - 2 ^ 63"

definition go_slice :: "'a list \<Rightarrow> bool" where
  "go_slice xs = (int (length xs) \<le> max_int)"

datatype 'a go_result = Panic | Return 'a

definition index_slice :: "'a list \<Rightarrow> int \<Rightarrow> 'a go_result" where
  "index_slice xs i =
     (if 0 \<le> i \<and> i < int (length xs) then Return (xs ! nat i) else Panic)"

section \<open>Proxy (scraper.go)\<close>

record Proxy =
  IP :: string
  Port :: string
  Country :: string
  City :: string

text \<open>The zero value \<open>Proxy{}\<close>.\<close>

definition Proxy_zero :: Proxy where
  "Proxy_zero = \<lparr>IP = [], Port = [], Country = [], City = []\<rparr>"

definition Addr :: "Proxy \<Rightarrow> string" where
  "Addr p = IP p @ '':'' @ Port p"

section \<open>ProxyPool (pool.go, in src/status.go)\<close>

record ProxyPool =
  proxies :: "Proxy list"
  current :: int

definition NewProxyPool :: ProxyPool where
  "NewProxyPool = \<lparr>proxies = [], current = 0\<rparr>"

text \<open>
  Every method takes the pool's lock for its whole body, so a method is one atomic
  step from a pool to a result and a pool. The mutation of \<open>current\<close> in
  \<open>SwitchNext\<close> comes before the indexing, so it is kept when the indexing panics.
\<close>

definition Update :: "Proxy list \<Rightarrow> ProxyPool \<Rightarrow> ProxyPool" where
  "Update new p = p\<lparr>proxies := new, current := 0\<rparr>"

definition Current :: "ProxyPool \<Rightarrow> (Proxy \<times> bool) go_result" where
  "Current p =
     (if length (proxies p) = 0 then Return (Proxy_zero, False)
      else case index_slice (proxies p) (current p) of
             Panic \<Rightarrow> Panic
           | Return px \<Rightarrow> Return (px, True))"

definition SwitchNext :: "ProxyPool \<Rightarrow> (Proxy \<times> bool) go_result \<times> ProxyPool" where
  "SwitchNext p =
     (if length (proxies p) = 0 then (Return (Proxy_zero, False), p)
      else
        let p' = p\<lparr>current := wrap_int (current p + 1) smod int (length (proxies p))\<rparr>
        in case index_slice (proxies p') (current p') of
             Panic \<Rightarrow> (Panic, p')
           | Return px \<Rightarrow> (Return (px, True), p'))"

definition SwitchTo :: "int \<Rightarrow> ProxyPool \<Rightarrow> (Proxy \<times> bool) go_result \<times> ProxyPool" where
  "SwitchTo index p =
     (if index < 0 \<or> index \<ge> int (length (proxies p)) then (Return (Proxy_zero, False), p)
      else
        let p' = p\<lparr>current := index\<rparr>
        in case index_slice (proxies p') (current p') of
             Panic \<Rightarrow> (Panic, p')
           | Return px \<Rightarrow> (Return (px, True), p'))"

definition CurrentIndex :: "ProxyPool \<Rightarrow> int" where
  "CurrentIndex p = current p"

definition Size :: "ProxyPool \<Rightarrow> int" where
  "Size p = int (length (proxies p))"

definition All :: "ProxyPool \<Rightarrow> Proxy list" where
  "All p = proxies p"

subsection \<open>Sequences of pool operations\<close>

text \<open>
  The mutating methods as data, to speak of any sequence of calls. Other goroutines
  reach the pool only through these methods. \<open>wf_op\<close> says that the argument of
  \<open>Update\<close> is a Go slice.
\<close>

datatype pool_op = OpUpdate "Proxy list" | OpSwitchNext | OpSwitchTo int

fun apply_op :: "pool_op \<Rightarrow> ProxyPool \<Rightarrow> ProxyPool" where
  "apply_op (OpUpdate new) p = Update new p"
| "apply_op OpSwitchNext p = snd (SwitchNext p)"
| "apply_op (OpSwitchTo i) p = snd (SwitchTo i p)"

fun wf_op :: "pool_op \<Rightarrow> bool" where
  "wf_op (OpUpdate new) = go_slice new"
| "wf_op OpSwitchNext = True"
| "wf_op (OpSwitchTo i) = True"

fun run_ops :: "pool_op list \<Rightarrow> ProxyPool \<Rightarrow> ProxyPool" where
  "run_ops [] p = p"
| "run_ops (op # ops) p = run_ops ops (apply_op op p)"

text \<open>The invariant of the pool: the index is in range, and 0 when the pool is empty.\<close>

definition pool_inv :: "ProxyPool \<Rightarrow> bool" where
  "pool_inv p =
     (go_slice (proxies p) \<and>
      (if proxies p = [] then current p = 0
       else 0 \<le> current p \<and> current p < int (length (proxies p))))"

text \<open>\<open>SwitchNext\<close> called \<open>n\<close> times in a row.\<close>

fun SwitchNext_times :: "nat \<Rightarrow> ProxyPool \<Rightarrow> ProxyPool" where
  "SwitchNext_times 0 p = p"
| "SwitchNext_times (Suc n) p = SwitchNext_times n (snd (SwitchNext p))"

subsection \<open>Example values\<close>

definition px_a :: Proxy where
  "px_a = \<lparr>IP = ''10.0.0.1'', Port = ''1080'', Country = [], City = []\<rparr>"

definition px_b :: Proxy where
  "px_b = \<lparr>IP = ''10.0.0.2'', Port = ''1080'', Country = [], City = []\<rparr>"

definition px_c :: Proxy where
  "px_c = \<lparr>IP = ''10.0.0.3'', Port = ''1081'', Country = [], City = []\<rparr>"

definition pool_ab :: ProxyPool where
  "pool_ab = \<lparr>proxies = [px_a, px_b], current = 0\<rparr>"

definition ops_example :: "pool_op list" where
  "ops_example = [OpUpdate [px_a, px_b, px_c], OpSwitchNext, OpSwitchTo 7, OpSwitchNext]"

section \<open>Strings (package strings)\<close>

text \<open>
  \<open>strings.TrimSpace\<close> takes the white space runes off both ends of a string. A rune
  is white space when \<open>unicode.IsSpace\<close> says so: U+0009 to U+000D, U+0020, U+0085,
  U+00A0, U+1680, U+2000 to U+200A, U+2028, U+2029, U+202F, U+205F and U+3000.
  \<open>space_runes\<close> lists their UTF-8 encodings. Bytes that are not the encoding of a rune
  decode as U+FFFD, which is not white space, so the trimming stops there.
\<close>

definition space_runes :: "string list" where
  "space_runes =
    [[CHR 0x09], [CHR 0x0A], [CHR 0x0B], [CHR 0x0C], [CHR 0x0D], [CHR 0x20],
     [CHR 0xC2, CHR 0x85], [CHR 0xC2, CHR 0xA0], [CHR 0xE1, CHR 0x9A, CHR 0x80],
     [CHR 0xE2, CHR 0x80, CHR 0x80], [CHR 0xE2, CHR 0x80, CHR 0x81],
     [CHR 0xE2, CHR 0x80, CHR 0x82], [CHR 0xE2, CHR 0x80, CHR 0x83],
     [CHR 0xE2, CHR 0x80, CHR 0x84], [CHR 0xE2, CHR 0x80, CHR 0x85],
     [CHR 0xE2, CHR 0x80, CHR 0x86], [CHR 0xE2, CHR 0x80, CHR 0x87],
     [CHR 0xE2, CHR 0x80, CHR 0x88], [CHR 0xE2, CHR 0x80, CHR 0x89],
     [CHR 0xE2, CHR 0x80, CHR 0x8A], [CHR 0xE2, CHR 0x80, CHR 0xA8],
     [CHR 0xE2, CHR 0x80, CHR 0xA9], [CHR 0xE2, CHR 0x80, CHR 0xAF],
     [CHR 0xE2, CHR 0x81, CHR 0x9F], [CHR 0xE3, CHR 0x80, CHR 0x80]]"

text \<open>
  The number of bytes of the white space rune at the start of a string, and of the one
  at its end; 0 when there is none.
\<close>

definition space_prefix :: "string \<Rightarrow> nat" where
  "space_prefix s =
     (case find (\<lambda>q. take (length q) s = q) space_runes of
        None \<Rightarrow> 0
      | Some q \<Rightarrow> length q)"

definition space_suffix :: "string \<Rightarrow> nat" where
  "space_suffix s =
     (case find (\<lambda>q. take (length q) (rev s) = rev q) space_runes of
        None \<Rightarrow> 0
      | Some q \<Rightarrow> length q)"

lemma space_prefix_Nil: "space_prefix [] = 0"
  by (simp add: space_prefix_def space_runes_def)

lemma space_suffix_Nil: "space_suffix [] = 0"
  by (simp add: space_suffix_def space_runes_def)

function trim_left :: "string \<Rightarrow> string" where
  "trim_left s = (if space_prefix s = 0 then s else trim_left (drop (space_prefix s) s))"
  by pat_completeness auto
termination
proof (relation "measure length")
  fix s :: string
  assume "space_prefix s \<noteq> 0"
  then have "s \<noteq> []" using space_prefix_Nil by auto
  with \<open>space_prefix s \<noteq> 0\<close> show "(drop (space_prefix s) s, s) \<in> measure length"
    by simp
qed simp

function trim_right :: "string \<Rightarrow> string" where
  "trim_right s =
     (if space_suffix s = 0 then s else trim_right (take (length s - space_suffix s) s))"
  by pat_completeness auto
termination
proof (relation "measure length")
  fix s :: string
  assume "space_suffix s \<noteq> 0"
  then have "s \<noteq> []" using space_suffix_Nil by auto
  with \<open>space_suffix s \<noteq> 0\<close> show "(take (length s - space_suffix s) s, s) \<in> measure length"
    by simp
qed simp

declare trim_left.simps [simp del] trim_right.simps [simp del]

definition TrimSpace :: "string \<Rightarrow> string" where
  "TrimSpace s = trim_right (trim_left s)"

text \<open>
  \<open>strings.ToLower\<close> maps every letter to its lower case by the case tables of package
  unicode, which are no part of this program. The checker, the only caller, takes the
  function as its parameter \<open>lower\<close>, and what is proved of the checker holds for every
  such function.
\<close>

section \<open>Scraper (scraper.go)\<close>

text \<open>
  \<open>proxyRegex\<close> is \<^verbatim>\<open>socks5://(\d{1,3}\.\d{1,3}\.\d{1,3}\.\d{1,3}):(\d+)\<close>.
  Package regexp matches leftmost-first, as a backtracking matcher does: each piece of
  the pattern yields the ways it can match in order of preference, and the first
  complete way wins. \<open>\d\<close> is an ASCII digit, and a repetition is greedy, so it
  prefers more digits. \<open>lit\<close> is a literal piece, \<open>digit_runs lo hi\<close> is \<open>\d{lo,hi}\<close>; each
  gives the rest of the input after its match.
\<close>

definition is_digit :: "char \<Rightarrow> bool" where
  "is_digit c = (c \<in> set ''0123456789'')"

definition lit :: "string \<Rightarrow> string \<Rightarrow> string list" where
  "lit l s = (if take (length l) s = l then [drop (length l) s] else [])"

definition digit_runs :: "nat \<Rightarrow> nat \<Rightarrow> string \<Rightarrow> (string \<times> string) list" where
  "digit_runs lo hi s =
     (let n = length (takeWhile is_digit (take hi s))
      in map (\<lambda>k. (take k s, drop k s)) (rev [lo ..< Suc n]))"

text \<open>
  The matches of the whole pattern at the start of \<open>s\<close>, in order of preference:
  the two submatches \<open>m[1]\<close> and \<open>m[2]\<close>, and the input after the match. \<open>\d+\<close> has no
  upper bound, so its bound is the length of the input.
\<close>

definition match_here :: "string \<Rightarrow> (string \<times> string \<times> string) list" where
  "match_here s =
     [(a @ ''.'' @ b @ ''.'' @ c @ ''.'' @ d, port, r9).
        r0 \<leftarrow> lit ''socks5://'' s,
        (a, r1) \<leftarrow> digit_runs 1 3 r0, r2 \<leftarrow> lit ''.'' r1,
        (b, r3) \<leftarrow> digit_runs 1 3 r2, r4 \<leftarrow> lit ''.'' r3,
        (c, r5) \<leftarrow> digit_runs 1 3 r4, r6 \<leftarrow> lit ''.'' r5,
        (d, r7) \<leftarrow> digit_runs 1 3 r6, r8 \<leftarrow> lit '':'' r7,
        (port, r9) \<leftarrow> digit_runs 1 (length r8) r8]"

lemma lit_shorter: "r \<in> set (lit l s) \<Longrightarrow> length r \<le> length s"
  by (auto simp: lit_def split: if_splits)

lemma digit_runs_shorter: "(a, r) \<in> set (digit_runs lo hi s) \<Longrightarrow> length r \<le> length s"
  by (auto simp: digit_runs_def Let_def)

lemma lit_nonempty_shorter: "r \<in> set (lit l s) \<Longrightarrow> l \<noteq> [] \<Longrightarrow> length r < length s"
  by (cases s) (auto simp: lit_def split: if_splits)

lemma match_here_shorter:
  assumes "(ip, port, r) \<in> set (match_here s)"
  shows "length r < length s"
proof -
  from assms obtain r0 a r1 r2 b r3 r4 c r5 r6 d r7 r8 where
    "r0 \<in> set (lit ''socks5://'' s)"
    "(a, r1) \<in> set (digit_runs 1 3 r0)" "r2 \<in> set (lit ''.'' r1)"
    "(b, r3) \<in> set (digit_runs 1 3 r2)" "r4 \<in> set (lit ''.'' r3)"
    "(c, r5) \<in> set (digit_runs 1 3 r4)" "r6 \<in> set (lit ''.'' r5)"
    "(d, r7) \<in> set (digit_runs 1 3 r6)" "r8 \<in> set (lit '':'' r7)"
    "(port, r) \<in> set (digit_runs 1 (length r8) r8)"
    unfolding match_here_def by fastforce
  then have "length r0 < length s" "length r1 \<le> length r0" "length r2 \<le> length r1"
    "length r3 \<le> length r2" "length r4 \<le> length r3" "length r5 \<le> length r4"
    "length r6 \<le> length r5" "length r7 \<le> length r6" "length r8 \<le> length r7"
    "length r \<le> length r8"
    by (auto dest: lit_shorter digit_runs_shorter lit_nonempty_shorter)
  then show ?thesis by linarith
qed

lemma match_here_hd_shorter:
  "match_here s = (ip, port, r) # ms \<Longrightarrow> length r < length s"
  using match_here_shorter [of ip port r s] by simp

text \<open>
  \<open>FindAllStringSubmatch(body, -1)\<close>: the successive matches from left to right, none
  overlapping the one before; where the pattern does not match, the search moves on.
  A match starts at the byte \<open>s\<close>, which is no part of a longer UTF-8 sequence, so
  moving on byte by byte finds the same matches as moving on rune by rune.
\<close>

function FindAllStringSubmatch :: "string \<Rightarrow> (string \<times> string) list" where
  "FindAllStringSubmatch s =
     (case match_here s of
        (ip, port, rest) # _ \<Rightarrow> (ip, port) # FindAllStringSubmatch rest
      | [] \<Rightarrow> (case s of [] \<Rightarrow> [] | _ # s' \<Rightarrow> FindAllStringSubmatch s'))"
  by pat_completeness auto
termination
  by (relation "measure length") (auto simp: match_here_hd_shorter)

declare FindAllStringSubmatch.simps [simp del]

datatype scrape_error = FetchFailed | UnexpectedStatus int | ReadBodyFailed

text \<open>
  What \<open>http.Get\<close> and \<open>io.ReadAll\<close> give: an error, or a status code with the body
  (\<open>None\<close> when reading the body fails).
\<close>

datatype http_result = HttpError | HttpResponse int "string option"

text \<open>The loop over the matches, with the map \<open>seen\<close> and the slice \<open>proxies\<close>.\<close>

fun scrape_loop :: "(string \<times> string) list \<Rightarrow> (string \<Rightarrow> bool) \<Rightarrow> Proxy list \<Rightarrow> Proxy list" where
  "scrape_loop [] seen ps = ps"
| "scrape_loop ((m1, m2) # ms) seen ps =
     (let addr = m1 @ '':'' @ m2
      in if seen addr then scrape_loop ms seen ps
         else scrape_loop ms (seen(addr := True))
                (ps @ [\<lparr>IP = TrimSpace m1, Port = TrimSpace m2, Country = [], City = []\<rparr>]))"

definition Scrape :: "http_result \<Rightarrow> scrape_error + Proxy list" where
  "Scrape net =
     (case net of
        HttpError \<Rightarrow> Inl FetchFailed
      | HttpResponse status body \<Rightarrow>
          if status \<noteq> 200 then Inl (UnexpectedStatus status)
          else (case body of
                  None \<Rightarrow> Inl ReadBodyFailed
                | Some b \<Rightarrow> Inr (scrape_loop (FindAllStringSubmatch b) (\<lambda>_. False) [])))"

subsection \<open>The shape of an address\<close>

definition digits :: "string \<Rightarrow> bool" where
  "digits s = (s \<noteq> [] \<and> list_all is_digit s)"

fun split_on :: "char \<Rightarrow> string \<Rightarrow> string list" where
  "split_on sep [] = [[]]"
| "split_on sep (c # s) =
     (if c = sep then [] # split_on sep s
      else case split_on sep s of g # gs \<Rightarrow> (c # g) # gs | [] \<Rightarrow> [[c]])"

text \<open>Four groups of one to three decimal digits, with dots between them.\<close>

definition dotted_quad :: "string \<Rightarrow> bool" where
  "dotted_quad s =
     (length (split_on CHR ''.'' s) = 4 \<and>
      list_all (\<lambda>g. digits g \<and> length g \<le> 3) (split_on CHR ''.'' s))"

text \<open>The value of a string of decimal digits.\<close>

definition digit_val :: "char \<Rightarrow> int" where
  "digit_val c = of_char c - 48"

definition parse_int :: "string \<Rightarrow> int" where
  "parse_int s = foldl (\<lambda>n c. 10 * n + digit_val c) 0 s"

text \<open>
  The validation as the specification words it: the port parses to \<open>1..65535\<close>, and the
  address is dotted-quad IPv4, each group a number up to 255.
\<close>

definition spec_port_valid :: "string \<Rightarrow> bool" where
  "spec_port_valid s = (digits s \<and> 1 \<le> parse_int s \<and> parse_int s \<le> 65535)"

definition spec_ipv4_valid :: "string \<Rightarrow> bool" where
  "spec_ipv4_valid s = (dotted_quad s \<and> list_all (\<lambda>g. parse_int g \<le> 255) (split_on CHR ''.'' s))"

text \<open>What a match of \<open>proxyRegex\<close> gives: \<open>TrimSpace\<close> leaves it as it is.\<close>

definition scraped :: "string \<Rightarrow> string \<Rightarrow> bool" where
  "scraped ip port = (dotted_quad ip \<and> digits port \<and> TrimSpace ip = ip)"

definition body_example :: string where
  "body_example = ''socks5://999.2.3.4:70000''"

section \<open>Checker (checker.go, src/unnamed/part_000)\<close>

text \<open>
  \<open>blockedCountries\<close> is a map from string to bool; a key that is absent reads as
  \<open>false\<close>.
\<close>

definition blockedCountries :: "string \<Rightarrow> bool" where
  "blockedCountries c = (c \<in> set [''china'', ''hong kong''])"

subsection \<open>LookupGeo\<close>

text \<open>
  What the network gives to one call of \<open>LookupGeo\<close>: whether the dial succeeds, and
  what the single \<open>conn.Read\<close> returns (\<open>None\<close> for an error). The buffer holds 1024
  bytes. The result of \<open>conn.Write\<close> is not looked at.
\<close>

record geo_net =
  geo_dial_ok :: bool
  geo_read :: "string option"

definition crlf2 :: string where
  "crlf2 = [CHR 0x0D, CHR 0x0A, CHR 0x0D, CHR 0x0A]"

text \<open>The first loop: the text after the first blank line, if there is one.\<close>

fun after_header :: "string \<Rightarrow> string option" where
  "after_header [] = None"
| "after_header (c # s) =
     (if take 4 (c # s) = crlf2 then Some (drop 4 (c # s)) else after_header s)"

text \<open>The second loop: cut at the first comma.\<close>

definition split_comma :: "string \<Rightarrow> string \<times> string" where
  "split_comma body =
     (if CHR '','' \<in> set body
      then (takeWhile (\<lambda>c. c \<noteq> CHR '','') body, tl (dropWhile (\<lambda>c. c \<noteq> CHR '','') body))
      else (body, []))"

definition LookupGeo :: "geo_net \<Rightarrow> string \<times> string" where
  "LookupGeo net =
     (if \<not> geo_dial_ok net then (''Unknown'', [])
      else case geo_read net of
             None \<Rightarrow> (''Unknown'', [])
           | Some bytes \<Rightarrow>
               let buf = take 1024 bytes
               in if length buf = 0 then (''Unknown'', [])
                  else split_comma (case after_header buf of None \<Rightarrow> buf | Some b \<Rightarrow> b))"

subsection \<open>checkGoogle\<close>

text \<open>
  What the network gives to one call of \<open>checkGoogle\<close>, step by step; a read is \<open>None\<close>
  when it returns an error. Bytes are numbers.
\<close>

record probe_net =
  probe_dial_ok :: bool
  greeting_sent :: bool
  greeting_reply :: "nat list option"
  connect_sent :: bool
  connect_reply :: "nat list option"
  http_sent :: bool
  http_reply :: "nat list option"

definition checkGoogle :: "Proxy \<Rightarrow> probe_net \<Rightarrow> bool" where
  "checkGoogle p net =
     (if \<not> probe_dial_ok net then False
      else if \<not> greeting_sent net then False
      else (case greeting_reply net of
        None \<Rightarrow> False
      | Some g \<Rightarrow>
        if length g < 2 \<or> g ! 0 \<noteq> 5 then False
        else if \<not> connect_sent net then False
        else (case connect_reply net of
          None \<Rightarrow> False
        | Some r \<Rightarrow>
          if length (take 256 r) < 2 \<or> r ! 1 \<noteq> 0 then False
          else if \<not> http_sent net then False
          else (case http_reply net of
            None \<Rightarrow> False
          | Some h \<Rightarrow>
            if length (take 512 h) < 12 then False
            else take 4 h = [72, 84, 84, 80]))))"

subsection \<open>CheckProxies\<close>

text \<open>
  \<open>CheckProxies\<close> starts one goroutine for each candidate, after sending to the
  channel \<open>sem\<close> of capacity \<open>maxConcurrent\<close>. The state of a call:
  \<^item> \<open>todo\<close>: the candidates the \<open>range\<close> loop has not reached, and \<open>next_id\<close>, the
    position of the first of them in the input;
  \<^item> \<open>running\<close>: the goroutines whose body has not run to its end, each with the position
    and the value of its candidate;
  \<^item> \<open>exiting\<close>: the goroutines whose body is over and whose deferred calls
    (\<open><-sem\<close>, then \<open>wg.Done()\<close>) are still to run;
  \<^item> \<open>alive\<close>: the slice the goroutines append to under the mutex.
  Every goroutine of \<open>running\<close> and \<open>exiting\<close> holds one slot of \<open>sem\<close>.
  Two more fields only record what happened: \<open>probes\<close>, the positions of the candidates
  for which \<open>checkGoogle\<close> was called, and \<open>origins\<close>, the position of the candidate
  behind each element of \<open>alive\<close>.
\<close>

record cand_net =
  geo_of :: geo_net
  probe_of :: probe_net

record checker =
  todo :: "Proxy list"
  next_id :: nat
  running :: "(nat \<times> Proxy) list"
  exiting :: "nat list"
  alive :: "Proxy list"
  probes :: "nat list"
  origins :: "nat list"

definition start :: "Proxy list \<Rightarrow> checker" where
  "start ps = \<lparr>todo = ps, next_id = 0, running = [], exiting = [],
               alive = [], probes = [], origins = []\<rparr>"

text \<open>
  The body of the goroutine for the candidate at position \<open>i\<close>. The network calls touch
  nothing shared, so the body is one step, at the moment of its \<open>append\<close>. The
  parameter \<open>lower\<close> is \<open>strings.ToLower\<close>.
\<close>

definition worker :: "(string \<Rightarrow> string) \<Rightarrow> cand_net \<Rightarrow> nat \<Rightarrow> Proxy \<Rightarrow> checker \<Rightarrow> checker" where
  "worker lower net i p c =
     (let (country, city) = LookupGeo (geo_of net);
          px = p\<lparr>Country := TrimSpace country, City := TrimSpace city\<rparr>
      in if blockedCountries (lower (Country px)) then c
         else
           let c' = c\<lparr>probes := probes c @ [i]\<rparr>
           in if checkGoogle px (probe_of net)
              then c'\<lparr>alive := alive c' @ [px], origins := origins c' @ [i]\<rparr>
              else c')"

text \<open>
  The scheduler picks what happens next: the loop sends to \<open>sem\<close> and starts the next
  goroutine (\<open>Spawn\<close>, possible while fewer than \<open>maxConcurrent\<close> slots are taken), the
  \<open>k\<close>-th running goroutine runs its body (\<open>Work k\<close>), or the \<open>k\<close>-th exiting goroutine
  frees its slot (\<open>Release k\<close>). An action that is not possible gives \<open>None\<close>.
  With capacity 0 the channel is unbuffered and a send needs a goroutine receiving at the
  same time; only the goroutines started after a send receive, so no send ever happens,
  as with \<open>Spawn\<close> here.
\<close>

datatype action = Spawn | Work nat | Release nat

definition remove_nth :: "nat \<Rightarrow> 'a list \<Rightarrow> 'a list" where
  "remove_nth k xs = take k xs @ drop (Suc k) xs"

fun do_action :: "(string \<Rightarrow> string) \<Rightarrow> (nat \<Rightarrow> cand_net) \<Rightarrow> int \<Rightarrow> action \<Rightarrow> checker \<Rightarrow> checker option" where
  "do_action lower net maxConcurrent Spawn c =
     (case todo c of
        [] \<Rightarrow> None
      | p # ps \<Rightarrow>
          if int (length (running c) + length (exiting c)) < maxConcurrent
          then Some (c\<lparr>todo := ps, next_id := Suc (next_id c),
                        running := running c @ [(next_id c, p)]\<rparr>)
          else None)"
| "do_action lower net maxConcurrent (Work k) c =
     (if k < length (running c)
      then let (i, p) = running c ! k
           in Some ((worker lower (net i) i p c)
                      \<lparr>running := remove_nth k (running c), exiting := exiting c @ [i]\<rparr>)
      else None)"
| "do_action lower net maxConcurrent (Release k) c =
     (if k < length (exiting c) then Some (c\<lparr>exiting := remove_nth k (exiting c)\<rparr>)
      else None)"

fun run_sched :: "(string \<Rightarrow> string) \<Rightarrow> (nat \<Rightarrow> cand_net) \<Rightarrow> int \<Rightarrow> action list \<Rightarrow> checker \<Rightarrow> checker option" where
  "run_sched lower net maxConcurrent [] c = Some c"
| "run_sched lower net maxConcurrent (a # as) c =
     (case do_action lower net maxConcurrent a c of
        None \<Rightarrow> None
      | Some c' \<Rightarrow> run_sched lower net maxConcurrent as c')"

text \<open>\<open>wg.Wait()\<close> returns once the loop is over and every goroutine is done.\<close>

definition finished :: "checker \<Rightarrow> bool" where
  "finished c = (todo c = [] \<and> running c = [] \<and> exiting c = [])"

text \<open>
  A call of \<open>CheckProxies\<close> under a schedule: \<open>make\<close> panics on a negative capacity;
  otherwise the schedule is a complete run when every action is possible in its turn and
  the last state is finished, and then the call returns \<open>alive\<close>. \<open>None\<close> says that the
  schedule is not a complete run.
\<close>

definition CheckProxies ::
  "(string \<Rightarrow> string) \<Rightarrow> (nat \<Rightarrow> cand_net) \<Rightarrow> action list \<Rightarrow> Proxy list \<Rightarrow> int
     \<Rightarrow> Proxy list go_result option" where
  "CheckProxies lower net sched ps maxConcurrent =
     (if maxConcurrent < 0 then Some Panic
      else case run_sched lower net maxConcurrent sched (start ps) of
             None \<Rightarrow> None
           | Some c \<Rightarrow> if finished c then Some (Return (alive c)) else None)"

text \<open>
  The candidate at position \<open>i\<close> as the checker outputs it, and whether it passes:
  it is not in a blocked country and the probe through it succeeds.
\<close>

definition annotate :: "cand_net \<Rightarrow> Proxy \<Rightarrow> Proxy" where
  "annotate net p =
     p\<lparr>Country := TrimSpace (fst (LookupGeo (geo_of net))),
       City := TrimSpace (snd (LookupGeo (geo_of net)))\<rparr>"

definition geo_blocked :: "(string \<Rightarrow> string) \<Rightarrow> cand_net \<Rightarrow> bool" where
  "geo_blocked lower net = blockedCountries (lower (TrimSpace (fst (LookupGeo (geo_of net)))))"

definition passes :: "(string \<Rightarrow> string) \<Rightarrow> cand_net \<Rightarrow> Proxy \<Rightarrow> bool" where
  "passes lower net p = (\<not> geo_blocked lower net \<and> checkGoogle (annotate net p) (probe_of net))"

text \<open>The passing candidates of a list whose first element is at position \<open>i\<close>, in order.\<close>

fun passing_from :: "(string \<Rightarrow> string) \<Rightarrow> (nat \<Rightarrow> cand_net) \<Rightarrow> nat \<Rightarrow> Proxy list \<Rightarrow> Proxy list" where
  "passing_from lower net i [] = []"
| "passing_from lower net i (p # ps) =
     (if passes lower (net i) p then annotate (net i) p # passing_from lower net (Suc i) ps
      else passing_from lower net (Suc i) ps)"

definition passing_running :: "(string \<Rightarrow> string) \<Rightarrow> (nat \<Rightarrow> cand_net) \<Rightarrow> (nat \<times> Proxy) list \<Rightarrow> Proxy list" where
  "passing_running lower net rs = map (\<lambda>(i, p). annotate (net i) p) (filter (\<lambda>(i, p). passes lower (net i) p) rs)"

text \<open>
  What is still to come in the output order if every goroutine ran at once in input
  order: the output so far, the running candidates that pass, the waiting ones that pass.
\<close>

definition pending :: "(string \<Rightarrow> string) \<Rightarrow> (nat \<Rightarrow> cand_net) \<Rightarrow> checker \<Rightarrow> Proxy list" where
  "pending lower net c =
     alive c @ passing_running lower net (running c) @ passing_from lower net (next_id c) (todo c)"

text \<open>
  With one slot, at most one goroutine is between its start and its release, and the
  order of \<open>pending\<close> is the input order.
\<close>

definition one_slot :: "(string \<Rightarrow> string) \<Rightarrow> (nat \<Rightarrow> cand_net) \<Rightarrow> Proxy list \<Rightarrow> checker \<Rightarrow> bool" where
  "one_slot lower net ps c =
     (length (running c) + length (exiting c) \<le> 1 \<and> pending lower net c = passing_from lower net 0 ps)"

text \<open>
  What holds in every state of a call on \<open>ps\<close>: the loop is at \<open>next_id\<close>, a running
  goroutine has the candidate of its position, no probe and no output comes from a
  candidate in a blocked country, and \<open>alive\<close> is made of the candidates at \<open>origins\<close>.
\<close>

definition geo_inv :: "(string \<Rightarrow> string) \<Rightarrow> (nat \<Rightarrow> cand_net) \<Rightarrow> Proxy list \<Rightarrow> checker \<Rightarrow> bool" where
  "geo_inv lower net ps c =
     (todo c = drop (next_id c) ps \<and> next_id c \<le> length ps \<and>
      list_all (\<lambda>(i, p). i < length ps \<and> p = ps ! i) (running c) \<and>
      list_all (\<lambda>j. \<not> geo_blocked lower (net j)) (probes c) \<and>
      list_all (\<lambda>j. \<not> geo_blocked lower (net j)) (origins c) \<and>
      alive c = map (\<lambda>j. annotate (net j) (ps ! j)) (origins c))"

text \<open>The schedule that runs the candidates one after the other.\<close>

fun seq_sched :: "nat \<Rightarrow> action list" where
  "seq_sched 0 = []"
| "seq_sched (Suc n) = Spawn # Work 0 # Release 0 # seq_sched n"

text \<open>The number of actions a state still allows: every action takes one away.\<close>

definition steps_left :: "checker \<Rightarrow> nat" where
  "steps_left c = 3 * length (todo c) + 2 * length (running c) + length (exiting c)"

subsection \<open>Example networks\<close>

text \<open>
  A function for the place of \<open>strings.ToLower\<close> in the examples: on a string of ASCII
  bytes, which is all the examples give it, \<open>strings.ToLower\<close> maps each of the
  letters \<open>A\<close>, ..., \<open>Z\<close> to its lower case and keeps the other bytes.
\<close>

definition lower_example :: "string \<Rightarrow> string" where
  "lower_example s =
     map (\<lambda>c. if 65 \<le> (of_char c :: nat) \<and> (of_char c :: nat) \<le> 90
              then char_of (of_char c + 32 :: nat) else c) s"

definition geo_nbsp :: geo_net where
  "geo_nbsp = \<lparr>geo_dial_ok = True,
                geo_read = Some (''HTTP/1.1 200 OK'' @ crlf2 @ [CHR 0xC2, CHR 0xA0] @ ''China,Beijing'')\<rparr>"

definition geo_us :: geo_net where
  "geo_us = \<lparr>geo_dial_ok = True,
              geo_read = Some (''HTTP/1.1 200 OK'' @ crlf2 @ ''United States,Dallas'')\<rparr>"

definition geo_cn :: geo_net where
  "geo_cn = \<lparr>geo_dial_ok = True,
              geo_read = Some (''HTTP/1.1 200 OK'' @ crlf2 @ '' China,Beijing'')\<rparr>"

definition probe_ok :: probe_net where
  "probe_ok = \<lparr>probe_dial_ok = True, greeting_sent = True, greeting_reply = Some [5, 0],
                connect_sent = True, connect_reply = Some [5, 0, 0, 1, 0, 0, 0, 0, 0, 0],
                http_sent = True,
                http_reply = Some [72, 84, 84, 80, 47, 49, 46, 49, 32, 50, 48, 52]\<rparr>"

definition net_ok :: "nat \<Rightarrow> cand_net" where
  "net_ok i = \<lparr>geo_of = geo_us, probe_of = probe_ok\<rparr>"

definition net_cn :: "nat \<Rightarrow> cand_net" where
  "net_cn i = \<lparr>geo_of = (if i = 0 then geo_cn else if i = 1 then geo_us else geo_nbsp),
                probe_of = probe_ok\<rparr>"

definition px_a_us :: Proxy where
  "px_a_us = px_a\<lparr>Country := ''United States'', City := ''Dallas''\<rparr>"

definition px_b_us :: Proxy where
  "px_b_us = px_b\<lparr>Country := ''United States'', City := ''Dallas''\<rparr>"

definition sched_swap :: "action list" where
  "sched_swap = [Spawn, Spawn, Work 1, Work 0, Release 0, Release 0]"

section \<open>SOCKS5 server (server.go, src/unnamed/part_001)\<close>

definition socks5Version :: nat where "socks5Version = 5"
definition cmdConnect :: nat where "cmdConnect = 1"
definition atypIPv4 :: nat where "atypIPv4 = 1"
definition atypDomain :: nat where "atypDomain = 3"
definition atypIPv6 :: nat where "atypIPv6 = 4"

text \<open>
  What a connection handler does that can be seen from outside, in order: bytes written
  to the client, calls of the pool, dials of an upstream, the relay, the deferred
  \<open>conn.Close()\<close>, and the crash of the program after a panic.
\<close>

datatype conn_event =
  Write "nat list" | PoolCurrent | PoolSwitchNext | Dial Proxy | Relay | Close | Crash

text \<open>\<open>sendReply\<close> writes the ten bytes of a minimal reply.\<close>

definition sendReply :: "nat \<Rightarrow> conn_event" where
  "sendReply status = Write [socks5Version, status, 0, atypIPv4, 0, 0, 0, 0, 0, 0]"

text \<open>
  \<open>parseTarget\<close>. The source formats host and port into one string; the model keeps
  the bytes of the host, with its address type, and the port.
\<close>

datatype target = Target nat "nat list" nat

datatype parse_error = TooShort | UnsupportedType nat

definition parseTarget :: "nat list \<Rightarrow> parse_error + target" where
  "parseTarget buf =
     (if length buf < 7 then Inl TooShort
      else if buf ! 3 = atypIPv4 then
        (if length buf < 10 then Inl TooShort
         else Inr (Target atypIPv4 (take 4 (drop 4 buf)) (buf ! 8 * 256 + buf ! 9)))
      else if buf ! 3 = atypDomain then
        (let domainLen = buf ! 4
         in if length buf < 5 + domainLen + 2 then Inl TooShort
            else Inr (Target atypDomain (take domainLen (drop 5 buf))
                        (buf ! (5 + domainLen) * 256 + buf ! (5 + domainLen + 1))))
      else if buf ! 3 = atypIPv6 then
        (if length buf < 22 then Inl TooShort
         else Inr (Target atypIPv6 (take 16 (drop 4 buf)) (buf ! 20 * 256 + buf ! 21)))
      else Inl (UnsupportedType (buf ! 3)))"

definition maxRetries :: nat where "maxRetries = 3"

text \<open>
  The loop of \<open>handleConn\<close> from its \<open>i\<close>-th round on. \<open>dial i upstream\<close> says whether
  \<open>dialViaSOCKS5\<close> succeeds in round \<open>i\<close>. The pool is shared: \<open>others i\<close> are the
  calls that other goroutines make on it before the handler takes the lock in
  round \<open>i\<close>. A panic in a pool method runs the deferred \<open>Close\<close> and ends the program.
\<close>

function attempts ::
  "(nat \<Rightarrow> Proxy \<Rightarrow> bool) \<Rightarrow> (nat \<Rightarrow> pool_op list) \<Rightarrow> nat \<Rightarrow> ProxyPool
     \<Rightarrow> conn_event list \<times> ProxyPool" where
  "attempts dial others i pool =
     (if i < maxRetries then
        let pool1 = run_ops (others i) pool;
            call = (if i = 0 then PoolCurrent else PoolSwitchNext);
            (r, pool2) = (if i = 0 then (Current pool1, pool1) else SwitchNext pool1)
        in case r of
             Panic \<Rightarrow> ([call, Close, Crash], pool2)
           | Return (upstream, ok) \<Rightarrow>
               if \<not> ok then ([call, sendReply 1, Close], pool2)
               else if dial i upstream
                 then ([call, Dial upstream, sendReply 0, Relay, Close], pool2)
                 else let (evs, pool3) = attempts dial others (i + 1) pool2
                      in (call # Dial upstream # evs, pool3)
      else ([sendReply 1, Close], pool))"
  by pat_completeness auto
termination
  by (relation "measure (\<lambda>(dial, others, i, pool). maxRetries - i)") auto

declare attempts.simps [simp del]

text \<open>
  \<open>handleConn\<close>: \<open>greeting\<close> and \<open>request\<close> are what the two calls of \<open>conn.Read\<close>
  return (\<open>None\<close> for an error); the buffer holds 256 bytes.
\<close>

definition handleConn ::
  "nat list option \<Rightarrow> nat list option \<Rightarrow> (nat \<Rightarrow> Proxy \<Rightarrow> bool) \<Rightarrow> (nat \<Rightarrow> pool_op list)
     \<Rightarrow> ProxyPool \<Rightarrow> conn_event list \<times> ProxyPool" where
  "handleConn greeting request dial others pool =
     (case greeting of
        None \<Rightarrow> ([Close], pool)
      | Some g \<Rightarrow>
          if length (take 256 g) < 2 \<or> g ! 0 \<noteq> socks5Version then ([Close], pool)
          else (case request of
            None \<Rightarrow> ([Write [socks5Version, 0], sendReply 7, Close], pool)
          | Some r \<Rightarrow>
              if length (take 256 r) < 7 \<or> r ! 1 \<noteq> cmdConnect
              then ([Write [socks5Version, 0], sendReply 7, Close], pool)
              else (case parseTarget (take 256 r) of
                Inl err \<Rightarrow> ([Write [socks5Version, 0], sendReply 4, Close], pool)
              | Inr targetAddr \<Rightarrow>
                  let (evs, pool') = attempts dial others 0 pool
                  in (Write [socks5Version, 0] # evs, pool'))))"

text \<open>The pool calls and the dials of a trace.\<close>

definition selections :: "conn_event list \<Rightarrow> conn_event list" where
  "selections evs = filter (\<lambda>e. e = PoolCurrent \<or> e = PoolSwitchNext) evs"

fun is_Dial :: "conn_event \<Rightarrow> bool" where
  "is_Dial (Dial u) = True"
| "is_Dial e = False"

definition dials :: "conn_event list \<Rightarrow> conn_event list" where
  "dials evs = filter is_Dial evs"

text \<open>The upstream that round \<open>i\<close> gets from a non-empty pool, and the pool after the call.\<close>

definition pick :: "nat \<Rightarrow> ProxyPool \<Rightarrow> Proxy \<times> ProxyPool" where
  "pick i p =
     (if i = 0 then (proxies p ! nat (current p), p)
      else (proxies p ! nat ((current p + 1) mod int (length (proxies p))),
            p\<lparr>current := (current p + 1) mod int (length (proxies p))\<rparr>))"

definition select_call :: "nat \<Rightarrow> conn_event" where
  "select_call i = (if i = 0 then PoolCurrent else PoolSwitchNext)"

subsection \<open>Example requests\<close>

definition greeting_ok :: "nat list" where
  "greeting_ok = [5, 1, 0]"

definition request_ok :: "nat list" where
  "request_ok = [5, 1, 0, 1, 93, 184, 216, 34, 0, 80]"

definition pool_abc :: ProxyPool where
  "pool_abc = \<lparr>proxies = [px_a, px_b, px_c], current = 0\<rparr>"

definition no_others :: "nat \<Rightarrow> pool_op list" where
  "no_others i = []"

definition empties_at_2 :: "nat \<Rightarrow> pool_op list" where
  "empties_at_2 i = (if i = 2 then [OpUpdate []] else [])"

text \<open>
  Upstream selection as the specification words it: up to three attempts, the first on
  \<open>Current\<close>, the second and third on \<open>SwitchNext\<close>; an empty pool at any attempt gives
  the reply \<open>05 01\<close> (general failure, with the zero bound address) and the close, and
  so do three failed dials; a dial that succeeds gives the reply \<open>05 00\<close> and the relay.
  The replies are written out byte by byte.
\<close>

definition failover_spec ::
  "(nat \<Rightarrow> Proxy \<Rightarrow> bool) \<Rightarrow> (nat \<Rightarrow> pool_op list) \<Rightarrow> ProxyPool
     \<Rightarrow> conn_event list \<times> ProxyPool" where
  "failover_spec dial others pool =
     (let a0 = run_ops (others 0) pool; (u0, b0) = pick 0 a0;
          a1 = run_ops (others 1) b0; (u1, b1) = pick 1 a1;
          a2 = run_ops (others 2) b1; (u2, b2) = pick 2 a2
      in if proxies a0 = [] then ([PoolCurrent, Write [5, 1, 0, 1, 0, 0, 0, 0, 0, 0], Close], a0)
         else if dial 0 u0 then ([PoolCurrent, Dial u0, Write [5, 0, 0, 1, 0, 0, 0, 0, 0, 0], Relay, Close], b0)
         else if proxies a1 = []
           then ([PoolCurrent, Dial u0, PoolSwitchNext, Write [5, 1, 0, 1, 0, 0, 0, 0, 0, 0], Close], a1)
         else if dial 1 u1
           then ([PoolCurrent, Dial u0, PoolSwitchNext, Dial u1, Write [5, 0, 0, 1, 0, 0, 0, 0, 0, 0], Relay, Close], b1)
         else if proxies a2 = []
           then ([PoolCurrent, Dial u0, PoolSwitchNext, Dial u1, PoolSwitchNext,
                  Write [5, 1, 0, 1, 0, 0, 0, 0, 0, 0], Close], a2)
         else if dial 2 u2
           then ([PoolCurrent, Dial u0, PoolSwitchNext, Dial u1, PoolSwitchNext, Dial u2,
                  Write [5, 0, 0, 1, 0, 0, 0, 0, 0, 0], Relay, Close], b2)
         else ([PoolCurrent, Dial u0, PoolSwitchNext, Dial u1, PoolSwitchNext, Dial u2,
                Write [5, 1, 0, 1, 0, 0, 0, 0, 0, 0], Close], b2))"

section \<open>Orchestrator (main.go, in src/status.go)\<close>

record Config =
  ListenAddr :: string
  StatusAddr :: string
  ScrapeURL :: string
  ScrapeInterval :: int
  CheckTimeout :: int
  MaxConcurrent :: int

text \<open>
  The pool that \<open>main\<close> creates and the two package variables of the timing state. A
  \<open>time.Time\<close> is a number of nanoseconds, its zero value is 0, and a
  \<open>time.Duration\<close> is a number of nanoseconds.
\<close>

record orchestrator =
  the_pool :: ProxyPool
  lastScrapeTime :: int
  nextScrapeTime :: int

text \<open>
  \<open>refreshPool\<close>, given what the network answers to the scraper (\<open>http\<close>) and to the
  checker (\<open>net\<close>), the schedule of the checker's goroutines and the value of
  \<open>time.Now()\<close>. \<open>None\<close> says that the schedule is not a complete run of the checker.
\<close>

definition refreshPool ::
  "(string \<Rightarrow> string) \<Rightarrow> Config \<Rightarrow> http_result \<Rightarrow> (nat \<Rightarrow> cand_net) \<Rightarrow> action list \<Rightarrow> int \<Rightarrow> orchestrator
     \<Rightarrow> orchestrator go_result option" where
  "refreshPool lower cfg http net sched now s =
     (case Scrape http of
        Inl err \<Rightarrow> Some (Return s)
      | Inr scraped_list \<Rightarrow>
          (case CheckProxies lower net sched scraped_list (MaxConcurrent cfg) of
             None \<Rightarrow> None
           | Some Panic \<Rightarrow> Some Panic
           | Some (Return verified) \<Rightarrow>
               Some (Return (s\<lparr>the_pool := Update verified (the_pool s),
                                lastScrapeTime := now,
                                nextScrapeTime := now + ScrapeInterval cfg\<rparr>))))"

subsection \<open>The rotation goroutine\<close>

definition Minute :: int where
  "Minute = 60 * 1000000000"

text \<open>
  \<open>rand.Intn(n)\<close> panics when \<open>n \<le> 0\<close>; otherwise it reduces a raw draw of the
  generator, a non-negative number, modulo \<open>n\<close>.
\<close>

definition Intn :: "int \<Rightarrow> nat \<Rightarrow> int go_result" where
  "Intn n raw = (if n \<le> 0 then Panic else Return (int raw mod n))"

text \<open>The delay for the draw \<open>r\<close>, in 64-bit arithmetic.\<close>

definition rotation_delay :: "int \<Rightarrow> int" where
  "rotation_delay r = wrap_int (wrap_int (5 * Minute) + wrap_int (r * Minute))"

text \<open>
  What the goroutine does, in order. One round of the loop has the raw draw of the
  generator and the calls that other goroutines make on the pool while this one sleeps
  and between its calls of \<open>Size\<close> and \<open>SwitchNext\<close>, which take the lock one after
  the other. The loop has no exit: \<open>rotation rounds p\<close> is what it does in its first
  \<open>length rounds\<close> rounds. \<open>SizeCall n\<close> records the value that \<open>Size\<close> returned, and
  \<open>SwitchNextCall m\<close> records the size of the pool that \<open>SwitchNext\<close> found.
\<close>

datatype rot_event = Sleep int | SizeCall int | SwitchNextCall int | RotCrash

record round =
  draw :: nat
  during_sleep :: "pool_op list"
  before_switch :: "pool_op list"

fun rotation :: "round list \<Rightarrow> ProxyPool \<Rightarrow> rot_event list \<times> ProxyPool" where
  "rotation [] p = ([], p)"
| "rotation (e # es) p =
     (case Intn 5 (draw e) of
        Panic \<Rightarrow> ([RotCrash], p)
      | Return r \<Rightarrow>
          let delay = rotation_delay r;
              p1 = run_ops (during_sleep e) p;
              n = Size p1;
              p2 = run_ops (before_switch e) p1
          in if n > 1 then
               (case SwitchNext p2 of
                  (Panic, p3) \<Rightarrow>
                    ([Sleep delay, SizeCall n, SwitchNextCall (Size p2), RotCrash], p3)
                | (Return px, p3) \<Rightarrow>
                    let (evs, p4) = rotation es p3
                    in (Sleep delay # SizeCall n # SwitchNextCall (Size p2) # evs, p4))
             else
               let (evs, p4) = rotation es p2
               in (Sleep delay # SizeCall n # evs, p4))"

text \<open>Every call of \<open>SwitchNext\<close> comes right after a call of \<open>Size\<close> that returned more than 1.\<close>

fun switch_guarded :: "rot_event list \<Rightarrow> bool" where
  "switch_guarded (SizeCall n # SwitchNextCall m # evs) = (1 < n \<and> switch_guarded evs)"
| "switch_guarded (SwitchNextCall m # evs) = False"
| "switch_guarded (e # evs) = switch_guarded evs"
| "switch_guarded [] = True"

text \<open>The sizes of the pools that the calls of \<open>SwitchNext\<close> of a trace found.\<close>

fun switch_sizes :: "rot_event list \<Rightarrow> int list" where
  "switch_sizes [] = []"
| "switch_sizes (SwitchNextCall m # evs) = m # switch_sizes evs"
| "switch_sizes (e # evs) = switch_sizes evs"

text \<open>The delays of a trace.\<close>

fun delays :: "rot_event list \<Rightarrow> int list" where
  "delays [] = []"
| "delays (Sleep d # evs) = d # delays evs"
| "delays (e # evs) = delays evs"

text \<open>A delay of five minutes plus zero to four minutes.\<close>

definition delay_ok :: "int \<Rightarrow> bool" where
  "delay_ok d = ((\<exists>k \<in> {0, 1, 2, 3, 4}. d = 5 * Minute + k * Minute) \<and>
                 5 * Minute \<le> d \<and> d \<le> 9 * Minute)"

subsection \<open>Example values\<close>

definition cfg_default :: Config where
  "cfg_default = \<lparr>ListenAddr = ''127.0.0.1:1080'', StatusAddr = ''127.0.0.1:8080'',
                   ScrapeURL = ''https://socks5-proxy.github.io/'',
                   ScrapeInterval = 30 * Minute, CheckTimeout = 10 * 1000000000,
                   MaxConcurrent = 20\<rparr>"

definition orch_example :: orchestrator where
  "orch_example = \<lparr>the_pool = \<lparr>proxies = [px_a, px_b], current = 1\<rparr>,
                    lastScrapeTime = 1000, nextScrapeTime = 1000 + 30 * Minute\<rparr>"

definition rounds_example :: "round list" where
  "rounds_example =
     [\<lparr>draw = 7, during_sleep = [], before_switch = []\<rparr>,
      \<lparr>draw = 4, during_sleep = [OpUpdate [px_c]], before_switch = []\<rparr>]"

definition rounds_race :: "round list" where
  "rounds_race = [\<lparr>draw = 4, during_sleep = [], before_switch = [OpUpdate [px_c]]\<rparr>]"

section \<open>Properties of the pool\<close>

lemma wrap_int_id: "- (2 ^ 63) \<le> x \<Longrightarrow> x \<le> max_int \<Longrightarrow> wrap_int x = x"
  by (simp add: wrap_int_def max_int_def)

lemma smod_nonneg: "0 \<le> a \<Longrightarrow> 0 < b \<Longrightarrow> (a::int) smod b = a mod b"
  by (simp add: smod_int_alt_def sgn_if)

lemma SwitchNext_step:
  assumes "pool_inv p" and "proxies p \<noteq> []"
  shows "SwitchNext p =
           (Return (proxies p ! nat ((current p + 1) mod int (length (proxies p))), True),
            p\<lparr>current := (current p + 1) mod int (length (proxies p))\<rparr>)"
proof -
  let ?n = "int (length (proxies p))"
  from assms have c: "0 \<le> current p" "current p < ?n" and n: "?n \<le> max_int" "0 < ?n"
    by (auto simp: pool_inv_def go_slice_def)
  have w: "wrap_int (current p + 1) = current p + 1"
    using c n by (intro wrap_int_id) auto
  have m: "(current p + 1) smod ?n = (current p + 1) mod ?n"
    using c n by (intro smod_nonneg) auto
  have r: "0 \<le> (current p + 1) mod ?n" "(current p + 1) mod ?n < ?n"
    using n by auto
  show ?thesis
    using assms(2) r by (simp add: SwitchNext_def Let_def w m index_slice_def)
qed

lemma pool_inv_New: "pool_inv NewProxyPool"
  by (simp add: pool_inv_def NewProxyPool_def go_slice_def max_int_def)

lemma pool_inv_Update: "go_slice new \<Longrightarrow> pool_inv (Update new p)"
  by (cases new) (auto simp: pool_inv_def Update_def)

lemma pool_inv_SwitchNext: "pool_inv p \<Longrightarrow> pool_inv (snd (SwitchNext p))"
proof (cases "proxies p = []")
  case True
  assume "pool_inv p"
  with True show ?thesis by (simp add: SwitchNext_def)
next
  case False
  assume inv: "pool_inv p"
  from inv False have "0 < int (length (proxies p))" by simp
  then have "0 \<le> (current p + 1) mod int (length (proxies p))"
    and "(current p + 1) mod int (length (proxies p)) < int (length (proxies p))"
    by auto
  with inv False show ?thesis
    by (simp add: SwitchNext_step pool_inv_def)
qed

lemma pool_inv_SwitchTo: "pool_inv p \<Longrightarrow> pool_inv (snd (SwitchTo i p))"
  by (auto simp: SwitchTo_def pool_inv_def Let_def index_slice_def)

lemma pool_inv_apply_op: "wf_op op \<Longrightarrow> pool_inv p \<Longrightarrow> pool_inv (apply_op op p)"
  by (cases op) (simp_all add: pool_inv_Update pool_inv_SwitchNext pool_inv_SwitchTo)

lemma pool_inv_run_ops:
  "\<forall>op \<in> set ops. wf_op op \<Longrightarrow> pool_inv p \<Longrightarrow> pool_inv (run_ops ops p)"
  by (induction ops arbitrary: p) (simp_all add: pool_inv_apply_op)

lemma SwitchNext_times_eq:
  assumes "pool_inv p" and "proxies p \<noteq> []"
  shows "SwitchNext_times k p =
           p\<lparr>current := (current p + int k) mod int (length (proxies p))\<rparr>"
  using assms
proof (induction k arbitrary: p)
  case 0
  then have "0 \<le> current p" and "current p < int (length (proxies p))"
    by (auto simp: pool_inv_def)
  then show ?case by simp
next
  case (Suc k)
  let ?q = "snd (SwitchNext p)"
  have q: "?q = p\<lparr>current := (current p + 1) mod int (length (proxies p))\<rparr>"
    using Suc.prems by (simp add: SwitchNext_step)
  have "pool_inv ?q" and "proxies ?q \<noteq> []"
    using Suc.prems pool_inv_SwitchNext [of p] by (simp_all add: q)
  then have "SwitchNext_times k ?q =
      ?q\<lparr>current := (current ?q + int k) mod int (length (proxies ?q))\<rparr>"
    by (rule Suc.IH)
  then show ?case
    by (simp add: q mod_simps ac_simps)
qed

text \<open>
  C6. For every pool state and every integer \<open>i\<close>: when \<open>0 \<le> i < Size()\<close>,
  \<open>SwitchTo(i)\<close> returns the proxy at \<open>i\<close> with \<open>ok = true\<close> and the active index becomes
  \<open>i\<close>, the sequence being kept; otherwise it returns \<open>ok = false\<close> and the pool (the
  active index and the sequence) is unchanged.
\<close>

theorem SwitchTo_contract:
  "(0 \<le> i \<and> i < Size p \<longrightarrow>
      fst (SwitchTo i p) = Return (proxies p ! nat i, True) \<and>
      CurrentIndex (snd (SwitchTo i p)) = i \<and>
      All (snd (SwitchTo i p)) = All p) \<and>
   (\<not> (0 \<le> i \<and> i < Size p) \<longrightarrow>
      fst (SwitchTo i p) = Return (Proxy_zero, False) \<and>
      CurrentIndex (snd (SwitchTo i p)) = CurrentIndex p \<and>
      All (snd (SwitchTo i p)) = All p \<and>
      snd (SwitchTo i p) = p)"
  by (auto simp: SwitchTo_def Size_def CurrentIndex_def All_def Let_def index_slice_def)

text \<open>
  C1. Starting from a fresh pool, after any sequence of \<open>Update\<close>, \<open>SwitchNext\<close> and
  \<open>SwitchTo\<close> calls in any order (the lists given to \<open>Update\<close> being Go slices), if
  \<open>Size() > 0\<close> then \<open>0 \<le> CurrentIndex() < Size()\<close>.
\<close>

theorem pool_index_in_range:
  assumes "\<forall>op \<in> set ops. wf_op op"
    and "0 < Size (run_ops ops NewProxyPool)"
  shows "0 \<le> CurrentIndex (run_ops ops NewProxyPool) \<and>
         CurrentIndex (run_ops ops NewProxyPool) < Size (run_ops ops NewProxyPool)"
proof -
  have "pool_inv (run_ops ops NewProxyPool)"
    using assms(1) pool_inv_New by (rule pool_inv_run_ops)
  with assms(2) show ?thesis
    by (auto simp: pool_inv_def Size_def CurrentIndex_def split: if_splits)
qed

text \<open>
  C7. On every non-empty pool that a sequence of pool operations builds from a fresh
  pool, \<open>SwitchNext\<close> called \<open>Size()\<close> times brings the active index back to the value
  it had before the first call.
\<close>

theorem SwitchNext_Size_times:
  assumes "\<forall>op \<in> set ops. wf_op op"
    and "p = run_ops ops NewProxyPool"
    and "0 < Size p"
  shows "CurrentIndex (SwitchNext_times (nat (Size p)) p) = CurrentIndex p"
proof -
  have inv: "pool_inv p"
    unfolding assms(2) using assms(1) pool_inv_New by (rule pool_inv_run_ops)
  from assms(3) have ne: "proxies p \<noteq> []"
    by (auto simp: Size_def)
  from inv ne have c: "0 \<le> current p" "current p < int (length (proxies p))"
    by (auto simp: pool_inv_def)
  have "SwitchNext_times (length (proxies p)) p =
          p\<lparr>current := (current p + int (length (proxies p))) mod int (length (proxies p))\<rparr>"
    using inv ne by (rule SwitchNext_times_eq)
  with c show ?thesis
    by (simp add: Size_def CurrentIndex_def)
qed

subsection \<open>The pool on concrete inputs\<close>

lemma run_ex: "run_ops ops_example NewProxyPool = \<lparr>proxies = [px_a, px_b, px_c], current = 2\<rparr>"
  by (simp add: ops_example_def NewProxyPool_def Update_def SwitchNext_def SwitchTo_def Let_def
      index_slice_def wrap_int_def smod_int_alt_def)

theorem SwitchTo_contract_witness:
  "(0 \<le> (1::int) \<and> 1 < Size pool_ab) \<and>
   fst (SwitchTo 1 pool_ab) = Return (px_b, True) \<and>
   CurrentIndex (snd (SwitchTo 1 pool_ab)) = 1 \<and>
   \<not> (0 \<le> (5::int) \<and> 5 < Size pool_ab) \<and>
   fst (SwitchTo 5 pool_ab) = Return (Proxy_zero, False) \<and>
   snd (SwitchTo 5 pool_ab) = pool_ab"
  using SwitchTo_contract [of 1 pool_ab] SwitchTo_contract [of 5 pool_ab]
  by (simp add: pool_ab_def Size_def)

theorem pool_index_in_range_witness:
  "list_all wf_op ops_example \<and>
   0 < Size (run_ops ops_example NewProxyPool) \<and>
   0 \<le> CurrentIndex (run_ops ops_example NewProxyPool) \<and>
   CurrentIndex (run_ops ops_example NewProxyPool) < Size (run_ops ops_example NewProxyPool)"
proof -
  have wf: "\<forall>op \<in> set ops_example. wf_op op"
    by (simp add: ops_example_def go_slice_def max_int_def)
  have sz: "0 < Size (run_ops ops_example NewProxyPool)"
    by (simp add: run_ex Size_def)
  from pool_index_in_range [OF wf sz] wf sz show ?thesis by (simp add: list_all_iff)
qed

theorem SwitchNext_Size_times_witness:
  "list_all wf_op ops_example \<and>
   0 < Size (run_ops ops_example NewProxyPool) \<and>
   CurrentIndex (run_ops ops_example NewProxyPool) = 2 \<and>
   CurrentIndex (SwitchNext_times (nat (Size (run_ops ops_example NewProxyPool)))
       (run_ops ops_example NewProxyPool)) = 2"
proof -
  have wf: "\<forall>op \<in> set ops_example. wf_op op"
    by (simp add: ops_example_def go_slice_def max_int_def)
  have sz: "0 < Size (run_ops ops_example NewProxyPool)"
    by (simp add: run_ex Size_def)
  have c: "CurrentIndex (run_ops ops_example NewProxyPool) = 2"
    by (simp add: run_ex CurrentIndex_def)
  from SwitchNext_Size_times [OF wf refl sz] wf sz c show ?thesis by (simp add: list_all_iff)
qed

section \<open>Properties of the scraper\<close>

lemma digit_not_dot: "is_digit c \<Longrightarrow> c \<noteq> CHR ''.''"
  by (auto simp: is_digit_def)

lemma space_runes_heads: "list_all (\<lambda>q. q \<noteq> [] \<and> \<not> is_digit (hd q)) space_runes"
  by (simp add: space_runes_def is_digit_def)

lemma space_runes_lasts: "list_all (\<lambda>q. q \<noteq> [] \<and> \<not> is_digit (last q)) space_runes"
  by (simp add: space_runes_def is_digit_def)

lemma space_prefix_digit:
  assumes "is_digit c"
  shows "space_prefix (c # s) = 0"
proof -
  have "take (length q) (c # s) \<noteq> q" if "q \<in> set space_runes" for q
  proof -
    from that space_runes_heads have "q \<noteq> []" and "\<not> is_digit (hd q)"
      by (auto simp: list_all_iff)
    with assms show ?thesis by (cases q) auto
  qed
  then have "find (\<lambda>q. take (length q) (c # s) = q) space_runes = None"
    by (simp add: find_None_iff)
  then show ?thesis by (simp add: space_prefix_def)
qed

lemma space_suffix_digit:
  assumes "is_digit c"
  shows "space_suffix (s @ [c]) = 0"
proof -
  have "take (length q) (rev (s @ [c])) \<noteq> rev q" if "q \<in> set space_runes" for q
  proof -
    from that space_runes_lasts have q: "q \<noteq> []" and "\<not> is_digit (last q)"
      by (auto simp: list_all_iff)
    with assms have "c \<noteq> last q" by auto
    moreover from q have "rev q = last q # rev (butlast q)"
      by (metis append_butlast_last_id rev.simps(2) rev_rev_ident rev_singleton_conv rev_append append_Cons append_Nil)
    ultimately show ?thesis by (cases q) auto
  qed
  then have "find (\<lambda>q. take (length q) (rev (s @ [c])) = rev q) space_runes = None"
    by (simp add: find_None_iff)
  then show ?thesis by (simp add: space_suffix_def)
qed

lemma TrimSpace_id:
  assumes "s \<noteq> []" and "is_digit (hd s)" and "is_digit (last s)"
  shows "TrimSpace s = s"
proof -
  from assms(1,2) have "space_prefix s = 0"
    by (cases s) (simp_all add: space_prefix_digit)
  then have 1: "trim_left s = s"
    by (simp add: trim_left.simps [of s])
  from assms(1,3) have "space_suffix (butlast s @ [last s]) = 0"
    by (intro space_suffix_digit)
  with assms(1) have "space_suffix s = 0" by simp
  then have 2: "trim_right s = s"
    by (simp add: trim_right.simps [of s])
  show ?thesis by (simp add: TrimSpace_def 1 2)
qed

lemma digits_TrimSpace: "digits s \<Longrightarrow> TrimSpace s = s"
proof -
  assume d: "digits s"
  then have "s \<noteq> []" and "is_digit (hd s)" and "is_digit (last s)"
    by (auto simp: digits_def list_all_iff)
  then show ?thesis by (rule TrimSpace_id)
qed

lemma digit_runs_digits:
  assumes "(a, r) \<in> set (digit_runs lo hi s)" and "0 < lo"
  shows "digits a \<and> length a \<le> hi"
proof -
  let ?w = "takeWhile is_digit (take hi s)"
  from assms(1) obtain k where k: "lo \<le> k" "k \<le> length ?w" and a: "a = take k s"
    by (auto simp: digit_runs_def Let_def)
  have w: "?w @ dropWhile is_digit (take hi s) @ drop hi s = s"
    by (metis append.assoc append_take_drop_id takeWhile_dropWhile_id)
  have "take k s = take k ?w"
    using k(2) by (subst w [symmetric]) simp
  with a have a': "a = take k ?w" by simp
  have "list_all is_digit ?w"
    by (simp add: list_all_iff) (meson set_takeWhileD)
  then have "list_all is_digit a"
    unfolding a' by (auto simp: list_all_iff dest: in_set_takeD)
  moreover have "length a = k" using k(2) by (simp add: a')
  moreover have "length ?w \<le> hi"
    using length_takeWhile_le [of is_digit "take hi s"] by simp
  ultimately show ?thesis using k assms(2) by (auto simp: digits_def)
qed

lemma lit_eq: "r \<in> set (lit l s) \<Longrightarrow> s = l @ r"
  by (auto simp: lit_def split: if_splits) (metis append_take_drop_id)

lemma digits_hd_last: "digits a \<Longrightarrow> a \<noteq> [] \<and> is_digit (hd a) \<and> is_digit (last a)"
  by (auto simp: digits_def list_all_iff)

lemma split_on_digits: "list_all is_digit a \<Longrightarrow> split_on CHR ''.'' a = [a]"
  by (induction a) (auto simp: digit_not_dot)

lemma split_on_group:
  "list_all is_digit a \<Longrightarrow> split_on CHR ''.'' (a @ CHR ''.'' # rest) = a # split_on CHR ''.'' rest"
  by (induction a) (auto simp: digit_not_dot)

lemma dotted_quad_groups:
  assumes "digits a \<and> length a \<le> 3" "digits b \<and> length b \<le> 3"
    "digits c \<and> length c \<le> 3" "digits d \<and> length d \<le> 3"
  shows "dotted_quad (a @ ''.'' @ b @ ''.'' @ c @ ''.'' @ d)"
proof -
  from assms have l: "list_all is_digit a" "list_all is_digit b" "list_all is_digit c"
    "list_all is_digit d"
    by (simp_all add: digits_def)
  have "split_on CHR ''.'' (a @ ''.'' @ b @ ''.'' @ c @ ''.'' @ d) = [a, b, c, d]"
    using l by (simp add: split_on_group split_on_digits)
  with assms show ?thesis by (simp add: dotted_quad_def)
qed

lemma quad_TrimSpace:
  assumes "digits a" and "digits d"
  shows "TrimSpace (a @ ''.'' @ b @ ''.'' @ c @ ''.'' @ d) = a @ ''.'' @ b @ ''.'' @ c @ ''.'' @ d"
proof (rule TrimSpace_id)
  from assms have a: "a \<noteq> []" "is_digit (hd a)" and d: "d \<noteq> []" "is_digit (last d)"
    by (auto dest: digits_hd_last)
  show "a @ ''.'' @ b @ ''.'' @ c @ ''.'' @ d \<noteq> []" using a by simp
  show "is_digit (hd (a @ ''.'' @ b @ ''.'' @ c @ ''.'' @ d))"
    using a by simp
  show "is_digit (last (a @ ''.'' @ b @ ''.'' @ c @ ''.'' @ d))"
    using d by simp
qed

lemma match_here_shape:
  assumes "(ip, port, r) \<in> set (match_here s)"
  shows "scraped ip port"
proof -
  from assms obtain r0 a r1 r2 b r3 r4 c r5 r6 d r7 r8 where
    ip: "ip = a @ ''.'' @ b @ ''.'' @ c @ ''.'' @ d" and
    "(a, r1) \<in> set (digit_runs 1 3 r0)"
    "(b, r3) \<in> set (digit_runs 1 3 r2)"
    "(c, r5) \<in> set (digit_runs 1 3 r4)"
    "(d, r7) \<in> set (digit_runs 1 3 r6)"
    "(port, r) \<in> set (digit_runs 1 (length r8) r8)"
    unfolding match_here_def by fastforce
  then have "digits a \<and> length a \<le> 3" "digits b \<and> length b \<le> 3"
    "digits c \<and> length c \<le> 3" "digits d \<and> length d \<le> 3" "digits port"
    using digit_runs_digits by (metis zero_less_one)+
  then show ?thesis unfolding ip scraped_def
    by (simp only: dotted_quad_groups quad_TrimSpace simp_thms)
qed

lemma FindAllStringSubmatch_shape:
  "(ip, port) \<in> set (FindAllStringSubmatch s) \<Longrightarrow> scraped ip port"
proof (induction s rule: FindAllStringSubmatch.induct)
  case (1 s)
  show ?case
  proof (cases "match_here s")
    case Nil
    show ?thesis
    proof (cases s)
      case Nil
      with \<open>match_here s = []\<close> "1.prems" show ?thesis
        by (simp add: FindAllStringSubmatch.simps [of "[]"])
    next
      case (Cons c s')
      with \<open>match_here s = []\<close> "1.prems" have "(ip, port) \<in> set (FindAllStringSubmatch s')"
        by (simp add: FindAllStringSubmatch.simps [of "c # s'"])
      with "1.IH"(1) [OF \<open>match_here s = []\<close> Cons] show ?thesis .
    qed
  next
    case (Cons m ms)
    obtain ip' port' rest where m: "m = (ip', port', rest)" by (cases m)
    have "(ip', port', rest) \<in> set (match_here s)" by (simp add: Cons m)
    then have sh: "scraped ip' port'" by (rule match_here_shape)
    from "1.prems" have "(ip, port) = (ip', port') \<or> (ip, port) \<in> set (FindAllStringSubmatch rest)"
      by (simp add: FindAllStringSubmatch.simps [of s] Cons m)
    then show ?thesis
      using sh "1.IH"(2) [OF Cons, of ip' "(port', rest)" port' rest] m by auto
  qed
qed

lemma scrape_loop_shape:
  assumes "list_all (\<lambda>(m1, m2). scraped m1 m2) ms"
    and "list_all (\<lambda>p. dotted_quad (IP p) \<and> digits (Port p)) ps"
  shows "list_all (\<lambda>p. dotted_quad (IP p) \<and> digits (Port p)) (scrape_loop ms seen ps)"
  using assms
proof (induction ms arbitrary: seen ps)
  case Nil
  then show ?case by simp
next
  case (Cons m ms)
  obtain m1 m2 where m: "m = (m1, m2)" by (cases m)
  from Cons.prems(1) have ms: "list_all (\<lambda>(m1, m2). scraped m1 m2) ms" and s: "scraped m1 m2"
    by (simp_all add: m)
  let ?px = "\<lparr>IP = TrimSpace m1, Port = TrimSpace m2, Country = [], City = []\<rparr>"
  have px: "list_all (\<lambda>p. dotted_quad (IP p) \<and> digits (Port p)) (ps @ [?px])"
    using s Cons.prems(2) by (simp add: scraped_def digits_TrimSpace)
  show ?case
  proof (cases "seen (m1 @ '':'' @ m2)")
    case True
    then have "scrape_loop (m # ms) seen ps = scrape_loop ms seen ps"
      by (simp add: m)
    with Cons.IH [OF ms Cons.prems(2)] show ?thesis by simp
  next
    case False
    then have "scrape_loop (m # ms) seen ps =
        scrape_loop ms (seen(m1 @ '':'' @ m2 := True)) (ps @ [?px])"
      by (simp add: m Let_def)
    with Cons.IH [OF ms px] show ?thesis by simp
  qed
qed

text \<open>
  C5, as amended. Every \<open>Proxy\<close> that \<open>Scrape\<close> constructs has an \<open>IP\<close> of four groups
  of one to three decimal digits separated by dots and a \<open>Port\<close> that is a non-empty
  string of decimal digits. The numeric ranges are not checked.
\<close>

theorem Scrape_shape:
  assumes "Scrape net = Inr ps" and "p \<in> set ps"
  shows "dotted_quad (IP p) \<and> digits (Port p)"
proof -
  from assms(1) obtain b where ps: "ps = scrape_loop (FindAllStringSubmatch b) (\<lambda>_. False) []"
    by (auto simp: Scrape_def split: http_result.splits if_splits option.splits)
  have "list_all (\<lambda>(m1, m2). scraped m1 m2) (FindAllStringSubmatch b)"
    by (auto simp: list_all_iff dest: FindAllStringSubmatch_shape)
  then have "list_all (\<lambda>p. dotted_quad (IP p) \<and> digits (Port p)) ps"
    unfolding ps by (rule scrape_loop_shape) simp
  with assms(2) show ?thesis by (simp add: list_all_iff)
qed

theorem Scrape_shape_witness:
  "dotted_quad ''999.2.3.4'' \<and> digits ''70000''"
proof -
  have s: "Scrape (HttpResponse 200 (Some body_example)) =
      Inr [\<lparr>IP = ''999.2.3.4'', Port = ''70000'', Country = [], City = []\<rparr>]"
    unfolding body_example_def by code_simp
  from Scrape_shape [OF s, of "\<lparr>IP = ''999.2.3.4'', Port = ''70000'', Country = [], City = []\<rparr>"]
  show ?thesis by simp
qed

text \<open>
  C5 as the specification states it fails: from the body \<open>socks5://999.2.3.4:70000\<close>,
  \<open>Scrape\<close> constructs a \<open>Proxy\<close> whose port is not in \<open>1..65535\<close> and whose first group
  is not a number up to 255.
\<close>

theorem Scrape_validation_counterexample:
  "Scrape (HttpResponse 200 (Some body_example)) =
     Inr [\<lparr>IP = ''999.2.3.4'', Port = ''70000'', Country = [], City = []\<rparr>] \<and>
   \<not> spec_port_valid ''70000'' \<and> \<not> spec_ipv4_valid ''999.2.3.4''"
proof -
  have "Scrape (HttpResponse 200 (Some body_example)) =
      Inr [\<lparr>IP = ''999.2.3.4'', Port = ''70000'', Country = [], City = []\<rparr>]"
    unfolding body_example_def by code_simp
  moreover have "\<not> spec_port_valid ''70000''"
    by (simp add: spec_port_valid_def parse_int_def digit_val_def)
  moreover have "\<not> spec_ipv4_valid ''999.2.3.4''"
    by (simp add: spec_ipv4_valid_def parse_int_def digit_val_def)
  ultimately show ?thesis by simp
qed

section \<open>Properties of the checker\<close>

lemma worker_alive:
  "alive (worker lower net i p c) = alive c @ (if passes lower net p then [annotate net p] else [])"
  by (simp add: worker_def passes_def geo_blocked_def annotate_def Let_def split_beta)

lemma worker_probes:
  "probes (worker lower net i p c) = probes c @ (if geo_blocked lower net then [] else [i])"
  by (simp add: worker_def geo_blocked_def Let_def split_beta)

lemma worker_origins:
  "origins (worker lower net i p c) = origins c @ (if passes lower net p then [i] else [])"
  by (simp add: worker_def passes_def geo_blocked_def annotate_def Let_def split_beta)

lemma worker_rest:
  "todo (worker lower net i p c) = todo c" "next_id (worker lower net i p c) = next_id c"
  "running (worker lower net i p c) = running c" "exiting (worker lower net i p c) = exiting c"
  by (simp_all add: worker_def Let_def split_beta)

lemma mset_remove_nth:
  "k < length xs \<Longrightarrow> add_mset (xs ! k) (mset (remove_nth k xs)) = mset xs"
  unfolding remove_nth_def
  by (subst (3) id_take_nth_drop [of k xs]) simp_all

lemma mset_passing_running_remove:
  assumes "k < length rs" and "rs ! k = (i, p)"
  shows "mset (passing_running lower net rs) =
         mset (if passes lower (net i) p then [annotate (net i) p] else []) +
         mset (passing_running lower net (remove_nth k rs))"
proof -
  have "mset (passing_running lower net rs) =
        image_mset (\<lambda>(i, p). annotate (net i) p) (filter_mset (\<lambda>(i, p). passes lower (net i) p) (mset rs))"
    by (simp add: passing_running_def)
  also have "mset rs = add_mset (i, p) (mset (remove_nth k rs))"
    using mset_remove_nth [OF assms(1)] assms(2) by simp
  finally show ?thesis by (simp add: passing_running_def)
qed

lemma do_action_pending:
  assumes "do_action lower net cap a c = Some c'"
  shows "mset (pending lower net c') = mset (pending lower net c)"
proof (cases a)
  case Spawn
  with assms obtain p ps where t: "todo c = p # ps"
    and c': "c' = c\<lparr>todo := ps, next_id := Suc (next_id c), running := running c @ [(next_id c, p)]\<rparr>"
    by (auto split: list.splits if_splits)
  show ?thesis
    by (simp add: pending_def c' t passing_running_def)
next
  case (Work k)
  with assms have k: "k < length (running c)" by (auto split: if_splits)
  obtain i p where ip: "running c ! k = (i, p)" by (cases "running c ! k")
  from assms Work k ip have c': "c' = (worker lower (net i) i p c)
      \<lparr>running := remove_nth k (running c), exiting := exiting c @ [i]\<rparr>"
    by simp
  show ?thesis
    using mset_passing_running_remove [OF k ip, of lower net]
    by (simp add: pending_def c' worker_alive worker_rest)
next
  case (Release k)
  with assms show ?thesis
    by (auto simp: pending_def split: if_splits)
qed

lemma run_sched_pending:
  "run_sched lower net cap sched c = Some c' \<Longrightarrow> mset (pending lower net c') = mset (pending lower net c)"
proof (induction sched arbitrary: c)
  case Nil
  then show ?case by simp
next
  case (Cons a sched)
  then obtain c1 where a: "do_action lower net cap a c = Some c1"
    and r: "run_sched lower net cap sched c1 = Some c'"
    by (auto split: option.splits)
  from Cons.IH [OF r] do_action_pending [OF a] show ?case by simp
qed

lemma pending_start: "pending lower net (start ps) = passing_from lower net 0 ps"
  by (simp add: pending_def start_def passing_running_def)

lemma pending_finished: "finished c \<Longrightarrow> pending lower net c = alive c"
  by (simp add: pending_def finished_def passing_running_def)

lemma do_action_one_slot:
  assumes "do_action lower net 1 a c = Some c'" and "one_slot lower net ps c"
  shows "one_slot lower net ps c'"
proof (cases a)
  case Spawn
  with assms(1) obtain p qs where t: "todo c = p # qs"
    and c': "c' = c\<lparr>todo := qs, next_id := Suc (next_id c), running := running c @ [(next_id c, p)]\<rparr>"
    and g: "int (length (running c) + length (exiting c)) < 1"
    by (auto split: list.splits if_splits)
  from g have "length (running c) + length (exiting c) = 0" by linarith
  then have e: "running c = []" "exiting c = []" by simp_all
  from assms(2) show ?thesis
    by (auto simp: one_slot_def pending_def c' t e passing_running_def split: if_splits)
next
  case (Work k)
  with assms(1) have k: "k < length (running c)" by (auto split: if_splits)
  with assms(2) obtain i p where r: "running c = [(i, p)]" and e: "exiting c = []" and k0: "k = 0"
    by (cases "running c") (auto simp: one_slot_def)
  from assms(1) Work r k0 have c': "c' = (worker lower (net i) i p c)
      \<lparr>running := remove_nth 0 (running c), exiting := exiting c @ [i]\<rparr>"
    by simp
  from assms(2) show ?thesis
    by (auto simp: one_slot_def pending_def c' r e worker_alive worker_rest
        passing_running_def remove_nth_def split: if_splits)
next
  case (Release k)
  with assms show ?thesis
    by (auto simp: one_slot_def pending_def remove_nth_def split: if_splits)
qed

lemma run_sched_one_slot:
  "run_sched lower net 1 sched c = Some c' \<Longrightarrow> one_slot lower net ps c \<Longrightarrow> one_slot lower net ps c'"
proof (induction sched arbitrary: c)
  case Nil
  then show ?case by simp
next
  case (Cons a sched)
  then obtain c1 where a: "do_action lower net 1 a c = Some c1"
    and r: "run_sched lower net 1 sched c1 = Some c'"
    by (auto split: option.splits)
  from Cons.IH [OF r do_action_one_slot [OF a Cons.prems(2)]] show ?case .
qed

lemma geo_inv_start: "geo_inv lower net ps (start ps)"
  by (simp add: geo_inv_def start_def)

lemma list_all_remove_nth: "list_all P xs \<Longrightarrow> list_all P (remove_nth k xs)"
  by (auto simp: remove_nth_def list_all_iff dest: in_set_takeD in_set_dropD)

lemma passes_not_blocked: "passes lower net p \<Longrightarrow> \<not> geo_blocked lower net"
  by (simp add: passes_def)

lemma do_action_geo_inv:
  assumes "do_action lower net cap a c = Some c'" and "geo_inv lower net ps c"
  shows "geo_inv lower net ps c'"
proof (cases a)
  case Spawn
  with assms(1) obtain p qs where t: "todo c = p # qs"
    and c': "c' = c\<lparr>todo := qs, next_id := Suc (next_id c), running := running c @ [(next_id c, p)]\<rparr>"
    by (auto split: list.splits if_splits)
  from assms(2) t have d: "drop (next_id c) ps = p # qs" by (simp add: geo_inv_def)
  then have n: "next_id c < length ps"
    by (metis drop_all list.distinct(1) not_le)
  from d n have p: "p = ps ! next_id c" and qs: "qs = drop (Suc (next_id c)) ps"
    by (metis Cons_nth_drop_Suc list.inject)+
  from assms(2) show ?thesis
    using n p qs by (simp add: geo_inv_def c')
next
  case (Work k)
  with assms(1) have k: "k < length (running c)" by (auto split: if_splits)
  obtain i p where ip: "running c ! k = (i, p)" by (cases "running c ! k")
  from assms(1) Work k ip have c': "c' = (worker lower (net i) i p c)
      \<lparr>running := remove_nth k (running c), exiting := exiting c @ [i]\<rparr>"
    by simp
  from assms(2) k ip have pi: "i < length ps" "p = ps ! i"
    by (auto simp: geo_inv_def list_all_length)
  from assms(2) show ?thesis
    using pi by (auto simp: geo_inv_def c' worker_alive worker_probes worker_origins worker_rest
        list_all_remove_nth passes_not_blocked)
next
  case (Release k)
  with assms show ?thesis
    by (auto simp: geo_inv_def split: if_splits)
qed

lemma run_sched_geo_inv:
  "run_sched lower net cap sched c = Some c' \<Longrightarrow> geo_inv lower net ps c \<Longrightarrow> geo_inv lower net ps c'"
proof (induction sched arbitrary: c)
  case Nil
  then show ?case by simp
next
  case (Cons a sched)
  then obtain c1 where a: "do_action lower net cap a c = Some c1"
    and r: "run_sched lower net cap sched c1 = Some c'"
    by (auto split: option.splits)
  from Cons.IH [OF r do_action_geo_inv [OF a Cons.prems(2)]] show ?case .
qed

lemma annotate_Country:
  "blockedCountries (lower (Country (annotate net p))) = geo_blocked lower net"
  by (simp add: annotate_def geo_blocked_def)

lemma CheckProxies_negative: "maxConcurrent < 0 \<Longrightarrow> CheckProxies lower net sched ps maxConcurrent = Some Panic"
  by (simp add: CheckProxies_def)

lemma start_blocked:
  "ps \<noteq> [] \<Longrightarrow> do_action lower net 0 a (start ps) = None"
  by (cases a; cases ps) (simp_all add: start_def)

lemma run_sched_zero:
  assumes "ps \<noteq> []"
  shows "run_sched lower net 0 sched (start ps) = (if sched = [] then Some (start ps) else None)"
  using assms by (cases sched) (simp_all add: start_blocked)

lemma start_not_finished: "ps \<noteq> [] \<Longrightarrow> \<not> finished (start ps)"
  by (simp add: finished_def start_def)

lemma CheckProxies_zero: "ps \<noteq> [] \<Longrightarrow> CheckProxies lower net sched ps 0 = None"
  by (simp add: CheckProxies_def run_sched_zero start_not_finished)

lemma seq_sched_runs:
  assumes "1 \<le> cap" and "running c = []" and "exiting c = []"
  shows "\<exists>c'. run_sched lower net cap (seq_sched (length (todo c))) c = Some c' \<and> finished c'"
  using assms(2,3)
proof (induction "todo c" arbitrary: c)
  case Nil
  then show ?case by (simp add: finished_def)
next
  case (Cons p qs)
  let ?c1 = "c\<lparr>todo := qs, next_id := Suc (next_id c), running := running c @ [(next_id c, p)]\<rparr>"
  let ?c2 = "(worker lower (net (next_id c)) (next_id c) p ?c1)\<lparr>running := [], exiting := [next_id c]\<rparr>"
  let ?c3 = "?c2\<lparr>exiting := []\<rparr>"
  have 1: "do_action lower net cap Spawn c = Some ?c1"
    using Cons.hyps(2) [symmetric] Cons.prems assms(1) by simp
  have 2: "do_action lower net cap (Work 0) ?c1 = Some ?c2"
    using Cons.prems by (simp add: remove_nth_def worker_rest)
  have 3: "do_action lower net cap (Release 0) ?c2 = Some ?c3"
    by (simp add: remove_nth_def)
  have "qs = todo ?c3" "running ?c3 = []" "exiting ?c3 = []"
    by (simp_all add: worker_rest)
  from Cons.hyps(1) [OF this] obtain c' where
    "run_sched lower net cap (seq_sched (length qs)) ?c3 = Some c'" "finished c'"
    by (auto simp: worker_rest)
  then show ?case
    using 1 2 3 Cons.hyps(2) [symmetric] by simp
qed

lemma CheckProxies_returns:
  assumes "1 \<le> maxConcurrent"
  shows "\<exists>out. CheckProxies lower net (seq_sched (length ps)) ps maxConcurrent = Some (Return out)"
proof -
  have "\<exists>c'. run_sched lower net maxConcurrent (seq_sched (length (todo (start ps)))) (start ps) = Some c'
      \<and> finished c'"
    using assms by (intro seq_sched_runs) (simp_all add: start_def)
  then show ?thesis
    using assms by (auto simp: CheckProxies_def start_def)
qed

lemma length_remove_nth: "k < length xs \<Longrightarrow> Suc (length (remove_nth k xs)) = length xs"
  by (simp add: remove_nth_def)

lemma do_action_steps:
  assumes "do_action lower net cap a c = Some c'"
  shows "Suc (steps_left c') = steps_left c"
proof (cases a)
  case Spawn
  with assms show ?thesis
    by (auto simp: steps_left_def split: list.splits if_splits)
next
  case (Work k)
  with assms have k: "k < length (running c)" by (auto split: if_splits)
  obtain i p where ip: "running c ! k = (i, p)" by (cases "running c ! k")
  from assms Work k ip have c': "c' = (worker lower (net i) i p c)
      \<lparr>running := remove_nth k (running c), exiting := exiting c @ [i]\<rparr>"
    by simp
  show ?thesis
    using length_remove_nth [OF k] by (simp add: steps_left_def c' worker_rest)
next
  case (Release k)
  with assms have k: "k < length (exiting c)" and c': "c' = c\<lparr>exiting := remove_nth k (exiting c)\<rparr>"
    by (auto split: if_splits)
  show ?thesis
    using length_remove_nth [OF k] by (simp add: steps_left_def c')
qed

lemma run_sched_steps:
  "run_sched lower net cap sched c = Some c' \<Longrightarrow> length sched + steps_left c' = steps_left c"
proof (induction sched arbitrary: c)
  case Nil
  then show ?case by simp
next
  case (Cons a sched)
  then obtain c1 where a: "do_action lower net cap a c = Some c1"
    and r: "run_sched lower net cap sched c1 = Some c'"
    by (auto split: option.splits)
  from Cons.IH [OF r] do_action_steps [OF a] show ?case by simp
qed

lemma do_action_progress:
  assumes "1 \<le> cap" and "\<not> finished c"
  shows "\<exists>a c'. do_action lower net cap a c = Some c'"
proof (cases "running c")
  case (Cons r rs)
  then have "\<exists>c'. do_action lower net cap (Work 0) c = Some c'"
    by (simp add: split_beta)
  then show ?thesis by blast
next
  case Nil
  show ?thesis
  proof (cases "exiting c")
    case (Cons e es)
    then have "\<exists>c'. do_action lower net cap (Release 0) c = Some c'" by simp
    then show ?thesis by blast
  next
    case e: Nil
    with Nil assms(2) obtain p ps where "todo c = p # ps"
      by (cases "todo c") (auto simp: finished_def)
    with Nil e assms(1) have "\<exists>c'. do_action lower net cap Spawn c = Some c'" by simp
    then show ?thesis by blast
  qed
qed

subsection \<open>The checker on concrete inputs\<close>

lemma geo_us_eval: "LookupGeo geo_us = (''United States'', ''Dallas'')"
  by (simp add: LookupGeo_def geo_us_def crlf2_def split_comma_def)

lemma geo_cn_eval: "LookupGeo geo_cn = ('' China'', ''Beijing'')"
  by (simp add: LookupGeo_def geo_cn_def crlf2_def split_comma_def)

lemma trim_us: "TrimSpace ''United States'' = ''United States''" "TrimSpace ''Dallas'' = ''Dallas''"
  by code_simp+

lemma lower_us: "lower_example ''United States'' = ''united states''"
  by code_simp

lemma cn_blocked: "lower_example (TrimSpace '' China'') = ''china''"
  by code_simp

lemma probe_ok_eval: "checkGoogle p probe_ok"
  by (simp add: checkGoogle_def probe_ok_def)

lemma worker_ok:
  "worker lower_example (net_ok i) i p c =
     c\<lparr>probes := probes c @ [i],
       alive := alive c @ [p\<lparr>Country := ''United States'', City := ''Dallas''\<rparr>],
       origins := origins c @ [i]\<rparr>"
  by (simp add: worker_def net_ok_def geo_us_eval trim_us lower_us blockedCountries_def
      probe_ok_eval)

lemma swap_run:
  "CheckProxies lower_example net_ok sched_swap [px_a, px_b] 2 = Some (Return [px_b_us, px_a_us])"
  by (simp add: CheckProxies_def sched_swap_def start_def worker_ok remove_nth_def finished_def
      px_a_us_def px_b_us_def)

lemma seq_run:
  "CheckProxies lower_example net_ok (seq_sched 2) [px_a, px_b] 1 = Some (Return [px_a_us, px_b_us])"
  by (simp add: CheckProxies_def numeral_2_eq_2 start_def worker_ok remove_nth_def finished_def
      px_a_us_def px_b_us_def)

lemma passes_ok: "passes lower_example (net_ok i) p"
  by (simp add: passes_def geo_blocked_def net_ok_def geo_us_eval trim_us lower_us
      blockedCountries_def probe_ok_eval)

lemma annotate_ok: "annotate (net_ok i) p = p\<lparr>Country := ''United States'', City := ''Dallas''\<rparr>"
  by (simp add: annotate_def net_ok_def geo_us_eval trim_us)

lemma passing_ok: "passing_from lower_example net_ok 0 [px_a, px_b] = [px_a_us, px_b_us]"
  by (simp add: passes_ok annotate_ok px_a_us_def px_b_us_def)

lemma neq: "px_a_us \<noteq> px_b_us"
  by (simp add: px_a_us_def px_b_us_def px_a_def px_b_def)

subsection \<open>Output order, geo filter and concurrency limit\<close>

text \<open>
  C3, as amended. The list that \<open>CheckProxies\<close> returns holds exactly the candidates that
  pass, each as often as it passes in the input, and it holds them in input order when
  \<open>maxConcurrent\<close> is 1. A candidate that fails is absent, and the call returns a list,
  never an error. For a larger \<open>maxConcurrent\<close> the order is the order in which the
  goroutines reach their \<open>append\<close>.
\<close>

theorem CheckProxies_output:
  assumes "CheckProxies lower net sched ps maxConcurrent = Some (Return out)"
  shows "mset out = mset (passing_from lower net 0 ps) \<and>
         (maxConcurrent = 1 \<longrightarrow> out = passing_from lower net 0 ps)"
proof -
  from assms obtain c where r: "run_sched lower net maxConcurrent sched (start ps) = Some c"
    and f: "finished c" and out: "out = alive c"
    by (auto simp: CheckProxies_def split: if_splits option.splits)
  have "mset out = mset (passing_from lower net 0 ps)"
    using run_sched_pending [OF r] by (simp add: pending_start pending_finished [OF f] out)
  moreover have "out = passing_from lower net 0 ps" if "maxConcurrent = 1"
  proof -
    have "one_slot lower net ps (start ps)"
      by (simp add: one_slot_def pending_start) (simp add: start_def)
    with r that have "one_slot lower net ps c" by (auto dest: run_sched_one_slot)
    then show ?thesis by (simp add: one_slot_def pending_finished [OF f] out)
  qed
  ultimately show ?thesis by simp
qed

theorem CheckProxies_output_witness:
  "CheckProxies lower_example net_ok (seq_sched 2) [px_a, px_b] 1 = Some (Return [px_a_us, px_b_us]) \<and>
   mset [px_a_us, px_b_us] = mset (passing_from lower_example net_ok 0 [px_a, px_b]) \<and>
   [px_a_us, px_b_us] = passing_from lower_example net_ok 0 [px_a, px_b]"
  using CheckProxies_output [OF seq_run] seq_run by simp

text \<open>
  C3 as the specification states it fails: with two slots and two candidates that both
  pass, the goroutine of the second may append first, and the output has them in the
  reverse of the input order.
\<close>

theorem CheckProxies_order_counterexample:
  "CheckProxies lower_example net_ok sched_swap [px_a, px_b] 2 = Some (Return [px_b_us, px_a_us]) \<and>
   passing_from lower_example net_ok 0 [px_a, px_b] = [px_a_us, px_b_us] \<and>
   px_a_us \<noteq> px_b_us"
  using swap_run passing_ok neq by simp

text \<open>
  C4. In every state that a call of \<open>CheckProxies\<close> reaches, a candidate whose looked-up
  country, trimmed and lowercased, is \<open>china\<close> or \<open>hong kong\<close> has had no call of
  \<open>checkGoogle\<close> and is behind no element of \<open>alive\<close>; and no element of \<open>alive\<close> has
  a blocked country. The list returned is \<open>alive\<close> of the last state. This holds for
  every function \<open>lower\<close>, so for \<open>strings.ToLower\<close>.
\<close>

theorem blocked_country_skipped:
  assumes "run_sched lower net maxConcurrent sched (start ps) = Some c"
    and "lower (TrimSpace (fst (LookupGeo (geo_of (net i))))) \<in> {''china'', ''hong kong''}"
  shows "i \<notin> set (probes c) \<and> i \<notin> set (origins c) \<and>
         alive c = map (\<lambda>j. annotate (net j) (ps ! j)) (origins c) \<and>
         list_all (\<lambda>px. \<not> blockedCountries (lower (Country px))) (alive c)"
proof -
  have inv: "geo_inv lower net ps c"
    using assms(1) geo_inv_start by (rule run_sched_geo_inv)
  from assms(2) have b: "geo_blocked lower (net i)"
    by (simp add: geo_blocked_def blockedCountries_def)
  from inv b have "i \<notin> set (probes c)" "i \<notin> set (origins c)"
    by (auto simp: geo_inv_def list_all_iff)
  moreover from inv have a: "alive c = map (\<lambda>j. annotate (net j) (ps ! j)) (origins c)"
    by (simp add: geo_inv_def)
  moreover from inv have "list_all (\<lambda>px. \<not> blockedCountries (lower (Country px))) (alive c)"
    unfolding a by (auto simp: geo_inv_def list_all_iff annotate_Country)
  ultimately show ?thesis by simp
qed

lemma geo_nbsp_eval:
  "LookupGeo geo_nbsp = ([CHR 0xC2, CHR 0xA0, CHR ''C'', CHR ''h'', CHR ''i'', CHR ''n'', CHR ''a''], ''Beijing'')"
  by (simp add: LookupGeo_def geo_nbsp_def crlf2_def split_comma_def)

lemma nbsp_blocked:
  "lower_example (TrimSpace [CHR 0xC2, CHR 0xA0, CHR ''C'', CHR ''h'', CHR ''i'', CHR ''n'', CHR ''a'']) = ''china''"
  by code_simp

lemma cn_run:
  "run_sched lower_example net_cn 1 (seq_sched 3) (start [px_a, px_b, px_c]) =
     Some \<lparr>todo = [], next_id = 3, running = [], exiting = [],
            alive = [px_b_us], probes = [1], origins = [1]\<rparr>"
  by (simp add: numeral_3_eq_3 start_def worker_def net_cn_def geo_us_eval geo_cn_eval
      geo_nbsp_eval trim_us lower_us cn_blocked nbsp_blocked blockedCountries_def probe_ok_eval
      remove_nth_def px_b_us_def)

theorem blocked_country_skipped_witness:
  "lower_example (TrimSpace (fst (LookupGeo (geo_of (net_cn 0))))) = ''china'' \<and>
   lower_example (TrimSpace (fst (LookupGeo (geo_of (net_cn 2))))) = ''china'' \<and>
   0 \<notin> set (probes \<lparr>todo = [], next_id = 3, running = [], exiting = [],
            alive = [px_b_us], probes = [1], origins = [1]\<rparr>) \<and>
   2 \<notin> set (probes \<lparr>todo = [], next_id = 3, running = [], exiting = [],
            alive = [px_b_us], probes = [1], origins = [1]\<rparr>) \<and>
   list_all (\<lambda>px. \<not> blockedCountries (lower_example (Country px))) [px_b_us]"
proof -
  have b0: "lower_example (TrimSpace (fst (LookupGeo (geo_of (net_cn 0))))) = ''china''"
    by (simp add: net_cn_def geo_cn_eval cn_blocked)
  have b2: "lower_example (TrimSpace (fst (LookupGeo (geo_of (net_cn 2))))) = ''china''"
    by (simp add: net_cn_def geo_nbsp_eval nbsp_blocked)
  from b0 have m0: "lower_example (TrimSpace (fst (LookupGeo (geo_of (net_cn 0)))))
      \<in> {''china'', ''hong kong''}"
    by simp
  from b2 have m2: "lower_example (TrimSpace (fst (LookupGeo (geo_of (net_cn 2)))))
      \<in> {''china'', ''hong kong''}"
    by simp
  from blocked_country_skipped [OF cn_run m0] blocked_country_skipped [OF cn_run m2] b0 b2
  show ?thesis by simp
qed

text \<open>
  C10. A negative \<open>maxConcurrent\<close> makes the construction of the channel panic. With
  \<open>maxConcurrent = 0\<close> and a non-empty list, no action is possible in the first state:
  the first send blocks, no goroutine has started, and no schedule is a complete run.
  So a call on a non-empty list returns a list only if \<open>maxConcurrent \<ge> 1\<close>. With
  \<open>maxConcurrent \<ge> 1\<close> the call does return: some action is possible in every state
  that is not finished, a run has at most three actions for each candidate, and the
  schedule that takes the candidates one after the other is a complete run.
\<close>

theorem CheckProxies_maxConcurrent:
  "(maxConcurrent < 0 \<longrightarrow> CheckProxies lower net sched ps maxConcurrent = Some Panic) \<and>
   (ps \<noteq> [] \<longrightarrow>
      (\<forall>a. do_action lower net 0 a (start ps) = None) \<and> \<not> finished (start ps) \<and>
      running (start ps) = [] \<and> CheckProxies lower net sched ps 0 = None) \<and>
   (ps \<noteq> [] \<and> CheckProxies lower net sched ps maxConcurrent = Some (Return out) \<longrightarrow>
      1 \<le> maxConcurrent) \<and>
   (1 \<le> maxConcurrent \<longrightarrow>
      (\<exists>res. CheckProxies lower net (seq_sched (length ps)) ps maxConcurrent = Some (Return res)) \<and>
      (\<forall>c. run_sched lower net maxConcurrent sched (start ps) = Some c \<longrightarrow>
           length sched \<le> 3 * length ps \<and>
           (\<not> finished c \<longrightarrow> (\<exists>a c'. do_action lower net maxConcurrent a c = Some c'))))"
proof (intro conjI impI allI)
  assume "maxConcurrent < 0"
  then show "CheckProxies lower net sched ps maxConcurrent = Some Panic"
    by (rule CheckProxies_negative)
next
  fix a assume "ps \<noteq> []"
  then show "do_action lower net 0 a (start ps) = None" by (rule start_blocked)
next
  assume "ps \<noteq> []"
  then show "\<not> finished (start ps)" by (rule start_not_finished)
next
  show "running (start ps) = []" by (simp add: start_def)
next
  assume "ps \<noteq> []"
  then show "CheckProxies lower net sched ps 0 = None" by (rule CheckProxies_zero)
next
  assume a: "ps \<noteq> [] \<and> CheckProxies lower net sched ps maxConcurrent = Some (Return out)"
  show "1 \<le> maxConcurrent"
  proof (rule ccontr)
    assume "\<not> 1 \<le> maxConcurrent"
    then consider "maxConcurrent < 0" | "maxConcurrent = 0" by linarith
    then show False
    proof cases
      case 1
      with a show False by (simp add: CheckProxies_negative)
    next
      case 2
      from a have "ps \<noteq> []" by simp
      from CheckProxies_zero [OF this, of lower net sched] a 2 show False by simp
    qed
  qed
next
  assume "1 \<le> maxConcurrent"
  then show "\<exists>res. CheckProxies lower net (seq_sched (length ps)) ps maxConcurrent = Some (Return res)"
    by (rule CheckProxies_returns)
next
  fix c assume "run_sched lower net maxConcurrent sched (start ps) = Some c"
  from run_sched_steps [OF this] show "length sched \<le> 3 * length ps"
    by (simp add: steps_left_def start_def)
next
  fix c assume "1 \<le> maxConcurrent" and "\<not> finished c"
  then show "\<exists>a c'. do_action lower net maxConcurrent a c = Some c'"
    by (rule do_action_progress)
qed

lemma one_run:
  "CheckProxies lower_example net_ok (seq_sched (length [px_a])) [px_a] 1 = Some (Return [px_a_us])"
  by (simp add: CheckProxies_def start_def worker_ok remove_nth_def finished_def px_a_us_def)

theorem CheckProxies_maxConcurrent_witness:
  "CheckProxies lower_example net_ok [Spawn] [px_a] (- 1) = Some Panic \<and>
   do_action lower_example net_ok 0 Spawn (start [px_a]) = None \<and>
   CheckProxies lower_example net_ok [Spawn] [px_a] 0 = None \<and>
   CheckProxies lower_example net_ok (seq_sched (length [px_a])) [px_a] 1 = Some (Return [px_a_us]) \<and>
   (1::int) \<le> 1"
proof -
  have ne: "[px_a] \<noteq> []" by simp
  from CheckProxies_maxConcurrent [of "- 1" lower_example net_ok "[Spawn]" "[px_a]" "[]"]
  have 1: "CheckProxies lower_example net_ok [Spawn] [px_a] (- 1) = Some Panic" by simp
  from CheckProxies_maxConcurrent [of 0 lower_example net_ok "[Spawn]" "[px_a]" "[]"] ne
  have 2: "do_action lower_example net_ok 0 Spawn (start [px_a]) = None"
    and 3: "CheckProxies lower_example net_ok [Spawn] [px_a] 0 = None"
    by blast+
  from CheckProxies_maxConcurrent [of 1 lower_example net_ok "seq_sched (length [px_a])" "[px_a]" "[px_a_us]"]
    ne one_run
  have 4: "(1::int) \<le> 1" by blast
  show ?thesis by (intro conjI 1 2 3 4 one_run)
qed

section \<open>Properties of the SOCKS5 server\<close>

lemma Current_empty: "proxies p = [] \<Longrightarrow> Current p = Return (Proxy_zero, False)"
  by (simp add: Current_def)

lemma Current_inv:
  "pool_inv p \<Longrightarrow> proxies p \<noteq> [] \<Longrightarrow> Current p = Return (proxies p ! nat (current p), True)"
  by (simp add: Current_def pool_inv_def index_slice_def)

lemma SwitchNext_empty: "proxies p = [] \<Longrightarrow> SwitchNext p = (Return (Proxy_zero, False), p)"
  by (simp add: SwitchNext_def)

lemma pool_inv_pick: "pool_inv p \<Longrightarrow> proxies p \<noteq> [] \<Longrightarrow> pool_inv (snd (pick i p))"
  using pool_inv_SwitchNext [of p] by (simp add: pick_def SwitchNext_step)

lemma attempts_3: "attempts dial others 3 p = ([sendReply 1, Close], p)"
  by (simp add: attempts.simps [of _ _ 3] maxRetries_def)

lemma attempts_empty:
  assumes "i < 3" and "proxies (run_ops (others i) p) = []"
  shows "attempts dial others i p = ([select_call i, sendReply 1, Close], run_ops (others i) p)"
  using assms
  by (subst attempts.simps, cases "i = 0")
    (simp_all add: maxRetries_def Let_def select_call_def Current_empty SwitchNext_empty)

lemma attempts_round:
  assumes "i < 3" and "pool_inv (run_ops (others i) p)" and "proxies (run_ops (others i) p) \<noteq> []"
  shows "attempts dial others i p =
     (let (u, b) = pick i (run_ops (others i) p)
      in if dial i u then ([select_call i, Dial u, sendReply 0, Relay, Close], b)
         else (select_call i # Dial u # fst (attempts dial others (Suc i) b),
               snd (attempts dial others (Suc i) b)))"
  using assms
  by (subst attempts.simps, cases "i = 0")
    (simp_all add: maxRetries_def Let_def select_call_def
      Current_inv SwitchNext_step pick_def split_beta)

lemma attempts_failover:
  assumes "pool_inv pool" and "\<forall>k. list_all wf_op (others k)"
  shows "attempts dial others 0 pool = failover_spec dial others pool"
proof -
  let ?a0 = "run_ops (others 0) pool"
  let ?u0 = "fst (pick 0 ?a0)" and ?b0 = "snd (pick 0 ?a0)"
  let ?a1 = "run_ops (others (Suc 0)) ?b0"
  let ?u1 = "fst (pick (Suc 0) ?a1)" and ?b1 = "snd (pick (Suc 0) ?a1)"
  let ?a2 = "run_ops (others (Suc (Suc 0))) ?b1"
  let ?u2 = "fst (pick (Suc (Suc 0)) ?a2)" and ?b2 = "snd (pick (Suc (Suc 0)) ?a2)"
  from assms(2) have wf: "\<forall>op \<in> set (others k). wf_op op" for k
    by (simp add: list_all_iff)
  have a0: "pool_inv ?a0" using wf assms(1) by (rule pool_inv_run_ops)
  have r2: "attempts dial others (Suc (Suc 0)) ?b1 =
      (if proxies ?a2 = [] then ([PoolSwitchNext, sendReply 1, Close], ?a2)
       else if dial (Suc (Suc 0)) ?u2 then ([PoolSwitchNext, Dial ?u2, sendReply 0, Relay, Close], ?b2)
       else ([PoolSwitchNext, Dial ?u2, sendReply 1, Close], ?b2))" if "pool_inv ?b1"
  proof -
    have "pool_inv ?a2" using wf that by (rule pool_inv_run_ops)
    then show ?thesis
      by (simp add: attempts_empty attempts_round attempts_3 [unfolded numeral_3_eq_3]
          select_call_def split_beta)
  qed
  have r1: "attempts dial others (Suc 0) ?b0 =
      (if proxies ?a1 = [] then ([PoolSwitchNext, sendReply 1, Close], ?a1)
       else if dial (Suc 0) ?u1 then ([PoolSwitchNext, Dial ?u1, sendReply 0, Relay, Close], ?b1)
       else (PoolSwitchNext # Dial ?u1 # fst (attempts dial others (Suc (Suc 0)) ?b1),
             snd (attempts dial others (Suc (Suc 0)) ?b1)))"
    and b1: "proxies ?a1 \<noteq> [] \<Longrightarrow> pool_inv ?b1" if "pool_inv ?b0"
  proof -
    have a1: "pool_inv ?a1" using wf that by (rule pool_inv_run_ops)
    then show "attempts dial others (Suc 0) ?b0 =
      (if proxies ?a1 = [] then ([PoolSwitchNext, sendReply 1, Close], ?a1)
       else if dial (Suc 0) ?u1 then ([PoolSwitchNext, Dial ?u1, sendReply 0, Relay, Close], ?b1)
       else (PoolSwitchNext # Dial ?u1 # fst (attempts dial others (Suc (Suc 0)) ?b1),
             snd (attempts dial others (Suc (Suc 0)) ?b1)))"
      by (simp add: attempts_empty attempts_round select_call_def split_beta)
    show "proxies ?a1 \<noteq> [] \<Longrightarrow> pool_inv ?b1"
      using a1 by (rule pool_inv_pick)
  qed
  have r0: "attempts dial others 0 pool =
      (if proxies ?a0 = [] then ([PoolCurrent, sendReply 1, Close], ?a0)
       else if dial 0 ?u0 then ([PoolCurrent, Dial ?u0, sendReply 0, Relay, Close], ?b0)
       else (PoolCurrent # Dial ?u0 # fst (attempts dial others (Suc 0) ?b0),
             snd (attempts dial others (Suc 0) ?b0)))"
    using a0 by (simp add: attempts_empty attempts_round select_call_def split_beta)
  have b0: "proxies ?a0 \<noteq> [] \<Longrightarrow> pool_inv ?b0"
    using a0 by (rule pool_inv_pick)
  show ?thesis
  proof (cases "proxies ?a0 = []")
    case True
    then show ?thesis by (simp add: r0 failover_spec_def Let_def split_beta numeral_2_eq_2
          sendReply_def socks5Version_def atypIPv4_def)
  next
    case n0: False
    note i0 = b0 [OF n0]
    show ?thesis
    proof (cases "proxies ?a1 = []")
      case True
      then show ?thesis
        using n0 by (simp add: r0 r1 [OF i0] failover_spec_def Let_def split_beta numeral_2_eq_2
          sendReply_def socks5Version_def atypIPv4_def)
    next
      case n1: False
      note i1 = b1 [OF i0 n1]
      show ?thesis
        using n0 n1 by (simp add: r0 r1 [OF i0] r2 [OF i1] failover_spec_def Let_def split_beta numeral_2_eq_2
          sendReply_def socks5Version_def atypIPv4_def)
    qed
  qed
qed

lemma failover_spec_bounds:
  "length (dials (fst (failover_spec dial others pool))) \<le> 3 \<and>
   selections (fst (failover_spec dial others pool)) \<in>
     set [[PoolCurrent], [PoolCurrent, PoolSwitchNext],
          [PoolCurrent, PoolSwitchNext, PoolSwitchNext]]"
  by (simp add: failover_spec_def Let_def split_beta dials_def selections_def)

lemma failover_spec_no_dial:
  assumes "\<forall>i u. \<not> dial i u"
  shows "drop (length (fst (failover_spec dial others pool)) - 2)
           (fst (failover_spec dial others pool)) =
         [Write [5, 1, 0, 1, 0, 0, 0, 0, 0, 0], Close]"
  using assms by (simp add: failover_spec_def Let_def split_beta)

text \<open>
  C2. For every inbound CONNECT that \<open>handleConn\<close> parses, on a pool that satisfies
  \<open>pool_inv\<close> (as every pool built by pool operations does), with any calls of other
  goroutines on the pool in between: after the method reply \<open>05 00\<close> the handler does
  what \<open>failover_spec\<close> says. It makes at most three attempts, the first on
  \<open>Pool.Current()\<close>, the second and third on \<open>Pool.SwitchNext()\<close>; if the pool is empty
  at an attempt it writes the ten bytes \<open>05 01 00 01 00 00 00 00 00 00\<close> and closes; the
  first dial that succeeds ends the selection with the reply \<open>05 00 00 01 00 00 00 00 00 00\<close>
  and the relay; and if three dials fail it writes \<open>05 01 00 01 00 00 00 00 00 00\<close> and
  closes.
\<close>

theorem handleConn_failover:
  assumes "pool_inv pool" and "\<forall>k. list_all wf_op (others k)"
    and "2 \<le> length g" and "g ! 0 = 5"
    and "7 \<le> length r" and "r ! 1 = 1"
    and "parseTarget (take 256 r) = Inr t"
  shows "handleConn (Some g) (Some r) dial others pool =
           (Write [5, 0] # fst (failover_spec dial others pool),
            snd (failover_spec dial others pool)) \<and>
         length (dials (fst (failover_spec dial others pool))) \<le> 3 \<and>
         selections (fst (failover_spec dial others pool)) \<in>
           set [[PoolCurrent], [PoolCurrent, PoolSwitchNext],
                [PoolCurrent, PoolSwitchNext, PoolSwitchNext]] \<and>
         (proxies (run_ops (others 0) pool) = [] \<longrightarrow>
            handleConn (Some g) (Some r) dial others pool =
              ([Write [5, 0], PoolCurrent, Write [5, 1, 0, 1, 0, 0, 0, 0, 0, 0], Close],
               run_ops (others 0) pool)) \<and>
         ((\<forall>i u. \<not> dial i u) \<longrightarrow>
            drop (length (fst (failover_spec dial others pool)) - 2)
              (fst (failover_spec dial others pool)) =
            [Write [5, 1, 0, 1, 0, 0, 0, 0, 0, 0], Close])"
proof -
  have h: "handleConn (Some g) (Some r) dial others pool =
      (Write [5, 0] # fst (attempts dial others 0 pool),
       snd (attempts dial others 0 pool))"
    using assms(3-7)
    by (simp add: handleConn_def split_beta min_def socks5Version_def cmdConnect_def)
  have e: "failover_spec dial others pool =
      ([PoolCurrent, Write [5, 1, 0, 1, 0, 0, 0, 0, 0, 0], Close], run_ops (others 0) pool)"
    if "proxies (run_ops (others 0) pool) = []"
    using that by (simp add: failover_spec_def Let_def split_beta)
  show ?thesis
    using h e attempts_failover [OF assms(1,2)] failover_spec_bounds
      failover_spec_no_dial [of dial others pool]
    by simp
qed

subsection \<open>The handler on concrete inputs\<close>

lemma pool_abc_inv: "pool_inv pool_abc"
  by (simp add: pool_inv_def pool_abc_def go_slice_def max_int_def)

lemma request_ok_parse:
  "parseTarget (take 256 request_ok) = Inr (Target atypIPv4 [93, 184, 216, 34] 80)"
  by (simp add: parseTarget_def request_ok_def atypIPv4_def)

lemma third_dial:
  "failover_spec (\<lambda>i u. i = 2) no_others pool_abc =
     ([PoolCurrent, Dial px_a, PoolSwitchNext, Dial px_b, PoolSwitchNext, Dial px_c,
       Write [5, 0, 0, 1, 0, 0, 0, 0, 0, 0], Relay, Close], pool_abc\<lparr>current := 2\<rparr>)"
  by (simp add: failover_spec_def no_others_def pool_abc_def pick_def)

lemma all_dials_fail:
  "failover_spec (\<lambda>i u. False) no_others pool_abc =
     ([PoolCurrent, Dial px_a, PoolSwitchNext, Dial px_b, PoolSwitchNext, Dial px_c,
       Write [5, 1, 0, 1, 0, 0, 0, 0, 0, 0], Close], pool_abc\<lparr>current := 2\<rparr>)"
  by (simp add: failover_spec_def no_others_def pool_abc_def pick_def)

lemma pool_emptied:
  "failover_spec (\<lambda>i u. False) empties_at_2 pool_abc =
     ([PoolCurrent, Dial px_a, PoolSwitchNext, Dial px_b, PoolSwitchNext,
       Write [5, 1, 0, 1, 0, 0, 0, 0, 0, 0], Close], \<lparr>proxies = [], current = 0\<rparr>)"
  by (simp add: failover_spec_def empties_at_2_def pool_abc_def pick_def Update_def)

theorem handleConn_failover_witness:
  "handleConn (Some greeting_ok) (Some request_ok) (\<lambda>i u. i = 2) no_others pool_abc =
     ([Write [5, 0], PoolCurrent, Dial px_a, PoolSwitchNext, Dial px_b,
       PoolSwitchNext, Dial px_c, Write [5, 0, 0, 1, 0, 0, 0, 0, 0, 0], Relay, Close],
      pool_abc\<lparr>current := 2\<rparr>) \<and>
   handleConn (Some greeting_ok) (Some request_ok) (\<lambda>i u. False) no_others pool_abc =
     ([Write [5, 0], PoolCurrent, Dial px_a, PoolSwitchNext, Dial px_b,
       PoolSwitchNext, Dial px_c, Write [5, 1, 0, 1, 0, 0, 0, 0, 0, 0], Close],
      pool_abc\<lparr>current := 2\<rparr>) \<and>
   handleConn (Some greeting_ok) (Some request_ok) (\<lambda>i u. False) empties_at_2 pool_abc =
     ([Write [5, 0], PoolCurrent, Dial px_a, PoolSwitchNext, Dial px_b,
       PoolSwitchNext, Write [5, 1, 0, 1, 0, 0, 0, 0, 0, 0], Close],
      \<lparr>proxies = [], current = 0\<rparr>)"
proof -
  have g: "2 \<le> length greeting_ok" "greeting_ok ! 0 = 5"
    by (simp_all add: greeting_ok_def)
  have r: "7 \<le> length request_ok" "request_ok ! 1 = 1"
    by (simp_all add: request_ok_def)
  have w1: "\<forall>k. list_all wf_op (no_others k)"
    by (simp add: no_others_def)
  have w2: "\<forall>k. list_all wf_op (empties_at_2 k)"
    by (simp add: empties_at_2_def go_slice_def max_int_def)
  note h1 = handleConn_failover [OF pool_abc_inv w1 g r request_ok_parse]
  note h2 = handleConn_failover [OF pool_abc_inv w2 g r request_ok_parse]
  show ?thesis
    using h1 [of "\<lambda>i u. i = 2"] h1 [of "\<lambda>i u. False"] h2 [of "\<lambda>i u. False"]
    by (simp add: third_dial all_dials_fail pool_emptied)
qed

section \<open>Properties of the orchestrator\<close>

text \<open>
  C8. When the scraper returns an error, \<open>refreshPool\<close> returns with the whole state as
  it was: \<open>Pool.Update\<close> is not called, so the sequence and the active index of the
  pool are unchanged, and \<open>lastScrapeTime\<close> and \<open>nextScrapeTime\<close> are unchanged. This
  holds whatever the checker would have done.
\<close>

theorem refreshPool_scrape_error:
  assumes "Scrape http = Inl err"
  shows "\<exists>s'. refreshPool lower cfg http net sched now s = Some (Return s') \<and>
           proxies (the_pool s') = proxies (the_pool s) \<and>
           current (the_pool s') = current (the_pool s) \<and>
           lastScrapeTime s' = lastScrapeTime s \<and> nextScrapeTime s' = nextScrapeTime s \<and>
           s' = s"
  using assms by (simp add: refreshPool_def)

lemma scrape_503: "Scrape (HttpResponse 503 None) = Inl (UnexpectedStatus 503)"
  by (simp add: Scrape_def)

theorem refreshPool_scrape_error_witness:
  "refreshPool lower_example cfg_default (HttpResponse 503 None) net_ok [] 5000 orch_example =
     Some (Return orch_example)"
  using refreshPool_scrape_error [OF scrape_503] by simp

lemma Intn_5: "\<exists>r. Intn 5 raw = Return r \<and> 0 \<le> r \<and> r < 5"
  by (simp add: Intn_def)

lemma rotation_delay_eq:
  "0 \<le> r \<Longrightarrow> r < 5 \<Longrightarrow> rotation_delay r = 5 * Minute + r * Minute"
proof -
  assume r: "0 \<le> r" "r < 5"
  then have "0 \<le> r * Minute" "r * Minute \<le> 4 * Minute"
    by (simp_all add: Minute_def)
  then show ?thesis
    by (simp add: rotation_delay_def wrap_int_def Minute_def)
qed

lemma rotation_delay_ok: "0 \<le> r \<Longrightarrow> r < 5 \<Longrightarrow> delay_ok (rotation_delay r)"
proof -
  assume r: "0 \<le> r" "r < 5"
  then have "r \<in> {0, 1, 2, 3, 4}" by auto
  with r show ?thesis
    unfolding delay_ok_def rotation_delay_eq [OF r] by (auto simp: Minute_def)
qed

lemma rotation_hd:
  "fst (rotation es p) = [] \<or> (\<exists>d evs. fst (rotation es p) = Sleep d # evs)"
proof (cases es)
  case Nil
  then show ?thesis by simp
next
  case (Cons e es')
  obtain r where r: "Intn 5 (draw e) = Return r" using Intn_5 by blast
  show ?thesis
    unfolding Cons by (simp add: r Let_def split_beta split: go_result.splits)
qed

lemma switch_guarded_Size:
  "evs = [] \<or> (\<exists>d evs'. evs = Sleep d # evs') \<Longrightarrow>
   switch_guarded (SizeCall n # evs) = switch_guarded evs"
  by auto

lemma rotation_props:
  "list_all delay_ok (delays (fst (rotation es p))) \<and> switch_guarded (fst (rotation es p)) \<and>
   (list_all (\<lambda>e. before_switch e = []) es \<longrightarrow>
      list_all (\<lambda>m. 1 < m) (switch_sizes (fst (rotation es p))))"
proof (induction es arbitrary: p)
  case Nil
  then show ?case by simp
next
  case (Cons e es)
  obtain r where r: "Intn 5 (draw e) = Return r" "0 \<le> r" "r < 5"
    using Intn_5 by blast
  note d = rotation_delay_ok [OF r(2,3)]
  let ?p1 = "run_ops (during_sleep e) p"
  let ?p2 = "run_ops (before_switch e) ?p1"
  show ?case
  proof (cases "1 < Size ?p1")
    case True
    obtain res p3 where s: "SwitchNext ?p2 = (res, p3)" by (cases "SwitchNext ?p2")
    show ?thesis
    proof (cases res)
      case Panic
      with True s r(1) d show ?thesis by (auto simp: Let_def)
    next
      case (Return px)
      with True s r(1) d Cons.IH [of p3] show ?thesis
        by (auto simp: Let_def split_beta)
    qed
  next
    case False
    with r(1) d Cons.IH [of ?p2] switch_guarded_Size [OF rotation_hd [of es ?p2]]
    show ?thesis
      by (auto simp: Let_def split_beta)
  qed
qed

text \<open>
  C9, as amended. In any number of rounds of the rotation loop, with any draws of the
  generator and any calls of other goroutines on the pool: every delay is five minutes
  plus \<open>k\<close> minutes for a \<open>k\<close> in \<open>{0, 1, 2, 3, 4}\<close>, so it lies between five and nine
  minutes; \<open>SwitchNext\<close> is called only right after a call of \<open>Size\<close> that returned
  more than 1; and when no other goroutine changes the pool between the two calls, the
  pool that \<open>SwitchNext\<close> finds has more than one proxy.
\<close>

theorem rotation_safe:
  "(\<forall>d \<in> set (delays (fst (rotation rounds p))).
      (\<exists>k \<in> {0, 1, 2, 3, 4}. d = 5 * Minute + k * Minute) \<and>
      5 * Minute \<le> d \<and> d \<le> 9 * Minute) \<and>
   switch_guarded (fst (rotation rounds p)) \<and>
   (list_all (\<lambda>e. before_switch e = []) rounds \<longrightarrow>
      list_all (\<lambda>m. 1 < m) (switch_sizes (fst (rotation rounds p))))"
  using rotation_props [of rounds p] by (simp add: list_all_iff delay_ok_def)

lemma rotation_example:
  "fst (rotation rounds_example pool_ab) =
     [Sleep (7 * Minute), SizeCall 2, SwitchNextCall 2, Sleep (9 * Minute), SizeCall 1]"
  by (simp add: rounds_example_def pool_ab_def Intn_def rotation_delay_def wrap_int_def
      Minute_def Size_def SwitchNext_def Update_def Let_def index_slice_def smod_int_alt_def)

theorem rotation_safe_witness:
  "fst (rotation rounds_example pool_ab) =
     [Sleep (7 * Minute), SizeCall 2, SwitchNextCall 2, Sleep (9 * Minute), SizeCall 1] \<and>
   list_all (\<lambda>e. before_switch e = []) rounds_example \<and>
   5 * Minute \<le> 7 * Minute \<and> 9 * Minute \<le> 9 * Minute \<and>
   switch_guarded
     [Sleep (7 * Minute), SizeCall 2, SwitchNextCall 2, Sleep (9 * Minute), SizeCall 1] \<and>
   list_all (\<lambda>m. 1 < m) [2 :: int]"
proof -
  have b: "list_all (\<lambda>e. before_switch e = []) rounds_example"
    by (simp add: rounds_example_def)
  from rotation_safe [of rounds_example pool_ab] b show ?thesis
    by (simp add: rotation_example)
qed

text \<open>
  C9 as the specification states it fails: \<open>Size\<close> returns 2, another goroutine replaces
  the pool by one proxy before this one takes the lock again, and \<open>SwitchNext\<close> is called
  on a pool of size 1.
\<close>

theorem rotation_race_counterexample:
  "fst (rotation rounds_race pool_ab) = [Sleep (9 * Minute), SizeCall 2, SwitchNextCall 1] \<and>
   switch_sizes (fst (rotation rounds_race pool_ab)) = [1] \<and>
   Size (run_ops [OpUpdate [px_c]] pool_ab) = 1"
  by (simp add: rounds_race_def pool_ab_def Intn_def rotation_delay_def wrap_int_def
      Minute_def Size_def SwitchNext_def Update_def Let_def index_slice_def smod_int_alt_def)

end
